theory Spec2Isabelle
  imports Complex_Main "HOL-Library.Word" "HOL-Library.Log_Nat"
begin

unbundle bit_operations_syntax

section \<open>Data model\<close>

text \<open>
  The routines of \<^verbatim>\<open>mpiroutines.cxx\<close> work on flat arrays of particles and of
  small bookkeeping structs. Only the fields that the verified routines read or write are
  kept. Counts and identifiers of the 64-bit type \<^verbatim>\<open>Int_t\<close> (the build default
  \<^verbatim>\<open>LONG_INT\<close>) are integers, and sums and differences of them are taken not to
  leave the 64 bits (a signed overflow has no defined result in C++); an \<^verbatim>\<open>int\<close>
  variable that receives an \<^verbatim>\<open>Int_t\<close> value receives it reduced to 32 bits, and
  \<^verbatim>\<open>double\<close> arithmetic rounds, as set out in the next section.
\<close>

record Particle =
  GetID :: int
  GetPID :: int
  GetType :: int

text \<open>\<^verbatim>\<open>struct fofid_in\<close>: a particle copy with its source index, task and group.\<close>

record fofid_in =
  fi_p :: Particle
  fi_Index :: int
  fi_Task :: int
  fi_iGroup :: int

section \<open>Machine numbers\<close>

text \<open>
  The conversion of an \<^verbatim>\<open>Int_t\<close> value to \<^verbatim>\<open>int\<close>: the value modulo \<open>2^32\<close> in
  the range of a signed 32-bit integer.
\<close>

definition int_of_Int_t :: "int \<Rightarrow> int" where
  "int_of_Int_t x = (x + 2147483648) mod 4294967296 - 2147483648"

text \<open>
  A \<^verbatim>\<open>double\<close> is a finite binary64 number, an infinity or no number. The finite
  numbers are kept as reals; zero has no sign (the routines below divide only by converted
  counts and by sums of them, which are never the negative zero). The chunk schedule and the
  rebalancing of the mesh compute with these numbers. The mesh decomposition takes the floor
  of the quotient of two 32-bit counts, which is the floor of the exact quotient (lemma
  \<open>floor_round_double_quotient\<close>), and is written with the exact quotient.
\<close>

datatype double = Finite real | PlusInfinity | MinusInfinity | NotANumber

text \<open>
  Rounding of a real to binary64, to nearest with ties to even: \<open>exponent_of x\<close> is the
  binary exponent \<open>\<lfloor>log\<^sub>2 \<bar>x\<bar>\<rfloor>\<close>, the significand has 53 bits, the spacing of the
  subnormal numbers is \<open>2^-1074\<close>, and a result of magnitude \<open>2^1024\<close> or more overflows to
  an infinity.
\<close>

definition exponent_of :: "real \<Rightarrow> int" where
  "exponent_of x = (if 1 \<le> \<bar>x\<bar> then bitlen \<lfloor>\<bar>x\<bar>\<rfloor> - 1 else - bitlen (\<lceil>1 / \<bar>x\<bar>\<rceil> - 1))"

definition round_half_even :: "real \<Rightarrow> int" where
  "round_half_even y =
     (if y - of_int \<lfloor>y\<rfloor> < 1 / 2 then \<lfloor>y\<rfloor>
      else if y - of_int \<lfloor>y\<rfloor> > 1 / 2 then \<lfloor>y\<rfloor> + 1
      else if even \<lfloor>y\<rfloor> then \<lfloor>y\<rfloor> else \<lfloor>y\<rfloor> + 1)"

definition round_double :: "real \<Rightarrow> double" where
  "round_double x =
     (let q = max (exponent_of x - 52) (- 1074);
          r = of_int (round_half_even (x / 2 powi q)) * 2 powi q
      in if r \<ge> 2 powi 1024 then PlusInfinity
         else if r \<le> - (2 powi 1024) then MinusInfinity
         else Finite r)"

text \<open>
  \<^verbatim>\<open>static_cast<double>\<close> of an integer, the arithmetic operators, the comparisons,
  \<^verbatim>\<open>ceil\<close>, and the conversion of a \<^verbatim>\<open>double\<close> to \<^verbatim>\<open>int\<close>, which truncates and
  has no defined result (\<open>None\<close>) when the truncated value is not an \<^verbatim>\<open>int\<close>.
\<close>

definition double_of_int :: "int \<Rightarrow> double" where
  "double_of_int k = round_double (of_int k)"




fun double_div :: "double \<Rightarrow> double \<Rightarrow> double" where
  "double_div (Finite a) (Finite b) =
     (if b \<noteq> 0 then round_double (a / b)
      else if a > 0 then PlusInfinity
      else if a < 0 then MinusInfinity
      else NotANumber)"
| "double_div NotANumber y = NotANumber"
| "double_div x NotANumber = NotANumber"
| "double_div (Finite a) y = Finite 0"
| "double_div PlusInfinity (Finite b) = (if b \<ge> 0 then PlusInfinity else MinusInfinity)"
| "double_div MinusInfinity (Finite b) = (if b \<ge> 0 then MinusInfinity else PlusInfinity)"
| "double_div x y = NotANumber"



fun double_ceil :: "double \<Rightarrow> double" where
  "double_ceil (Finite x) = Finite (of_int \<lceil>x\<rceil>)"
| "double_ceil x = x"

fun int_of_double :: "double \<Rightarrow> int option" where
  "int_of_double (Finite x) =
     (let t = (if x \<ge> 0 then \<lfloor>x\<rfloor> else \<lceil>x\<rceil>)
      in if - 2147483648 \<le> t \<and> t \<le> 2147483647 then Some t else None)"
| "int_of_double x = None"

section \<open>Transport: the chunk schedule\<close>

text \<open>
  \<^verbatim>\<open>MPIInitialzeCommChunks\<close> returns the number of rounds, the two current chunk
  sizes and the two offsets. The chunk sizes and the round counts are \<^verbatim>\<open>int\<close>
  variables: \<^verbatim>\<open>cursendchunksize = currecvchunksize = maxchunksize\<close> converts the
  \<^verbatim>\<open>Int_t\<close> parameter, and the round counts are converted from the \<^verbatim>\<open>double\<close>
  that \<^verbatim>\<open>ceil\<close> returns.
\<close>

definition MPIInitialzeCommChunks ::
  "int \<Rightarrow> int \<Rightarrow> int \<Rightarrow> (int \<times> int \<times> int \<times> int \<times> int) option" where
  "MPIInitialzeCommChunks nsend nrecv maxchunksize =
     (let currecvchunksize = int_of_Int_t maxchunksize;
          cursendchunksize = currecvchunksize
      in case int_of_double
                (double_ceil (double_div (double_of_int nsend) (double_of_int maxchunksize))) of
           None \<Rightarrow> None
         | Some nsendchunks \<Rightarrow>
            (case int_of_double
                    (double_ceil (double_div (double_of_int nrecv) (double_of_int maxchunksize))) of
               None \<Rightarrow> None
             | Some nrecvchunks \<Rightarrow>
                (let (nsendchunks, cursendchunksize) =
                       (if cursendchunksize > nsend then (1, int_of_Int_t nsend)
                        else (nsendchunks, cursendchunksize));
                     (nrecvchunks, currecvchunksize) =
                       (if currecvchunksize > nrecv then (1, int_of_Int_t nrecv)
                        else (nrecvchunks, currecvchunksize));
                     numsendrecv = max nsendchunks nrecvchunks
                 in Some (numsendrecv, cursendchunksize, currecvchunksize, 0, 0))))"

text \<open>
  The state that \<^verbatim>\<open>MPIUpdateCommChunks\<close> updates through its reference
  parameters: current send size, current receive size (\<^verbatim>\<open>int\<close>), send offset, receive
  offset (\<^verbatim>\<open>Int_t\<close>).
\<close>

record comm_chunks =
  cursendchunksize :: int
  currecvchunksize :: int
  sendoffset :: int
  recvoffset :: int

definition MPIUpdateCommChunks :: "int \<Rightarrow> int \<Rightarrow> comm_chunks \<Rightarrow> comm_chunks" where
  "MPIUpdateCommChunks nsend nrecv c =
     (let so = sendoffset c + cursendchunksize c;
          ro = recvoffset c + currecvchunksize c
      in \<lparr>cursendchunksize = int_of_Int_t (min (cursendchunksize c) (nsend - so)),
          currecvchunksize = int_of_Int_t (min (currecvchunksize c) (nrecv - ro)),
          sendoffset = so, recvoffset = ro\<rparr>)"

text \<open>
  The loop every caller runs: \<^verbatim>\<open>for (ichunk = 0; ichunk < numsendrecv; ichunk++)\<close>,
  one blocking send-receive with the current sizes at the current offsets, then
  \<^verbatim>\<open>MPIUpdateCommChunks\<close>. The result lists the state each round transfers with.
\<close>

fun comm_rounds :: "nat \<Rightarrow> int \<Rightarrow> int \<Rightarrow> comm_chunks \<Rightarrow> comm_chunks list" where
  "comm_rounds 0 nsend nrecv c = []"
| "comm_rounds (Suc n) nsend nrecv c = c # comm_rounds n nsend nrecv (MPIUpdateCommChunks nsend nrecv c)"

definition chunk_schedule :: "int \<Rightarrow> int \<Rightarrow> int \<Rightarrow> comm_chunks list option" where
  "chunk_schedule nsend nrecv maxchunksize =
     (case MPIInitialzeCommChunks nsend nrecv maxchunksize of
        None \<Rightarrow> None
      | Some (numsendrecv, cs, cr, so, ro) \<Rightarrow>
          Some (comm_rounds (nat numsendrecv) nsend nrecv
            \<lparr>cursendchunksize = cs, currecvchunksize = cr, sendoffset = so, recvoffset = ro\<rparr>))"

section \<open>Sorting with a comparator\<close>

text \<open>
  \<^verbatim>\<open>std::sort(first, last, comp)\<close> and the \<^verbatim>\<open>qsort\<close> it replaced order an array
  by a comparator. Both are modelled by insertion with the comparator as the strict order;
  for elements that the comparator tells apart every sorting algorithm gives this result.
\<close>

fun insert_by :: "('a \<Rightarrow> 'a \<Rightarrow> bool) \<Rightarrow> 'a \<Rightarrow> 'a list \<Rightarrow> 'a list" where
  "insert_by lt x [] = [x]"
| "insert_by lt x (y # ys) = (if lt x y then x # y # ys else y # insert_by lt x ys)"

definition std_sort :: "('a \<Rightarrow> 'a \<Rightarrow> bool) \<Rightarrow> 'a list \<Rightarrow> 'a list" where
  "std_sort lt xs = foldr (insert_by lt) xs []"

text \<open>\<^verbatim>\<open>qsort\<close> takes a three-way comparator: a negative result puts \<open>a\<close> first.\<close>

definition qsort :: "('a \<Rightarrow> 'a \<Rightarrow> int) \<Rightarrow> 'a list \<Rightarrow> 'a list" where
  "qsort cmp xs = std_sort (\<lambda>a b. cmp a b < 0) xs"

section \<open>Cross-domain linking\<close>

text \<open>
  \<^verbatim>\<open>struct fofdata_in\<close>: the export record of a particle (source index, destination
  task, current group id, task of the group, current group length).
\<close>

record fofdata_in =
  fd_Index :: int
  fd_Task :: int
  fd_iGroup :: int
  fd_iGroupTask :: int
  fd_iLen :: int

text \<open>
  The arrays \<^verbatim>\<open>pfof\<close>, \<^verbatim>\<open>Len\<close>, \<^verbatim>\<open>mpi_foftask\<close>, \<^verbatim>\<open>Part\<close>,
  \<^verbatim>\<open>Head\<close> and \<^verbatim>\<open>Next\<close> are raw pointers in the source; they are stores from the
  index to the value held there. \<^verbatim>\<open>MPILinkAcross\<close> writes the first three, the counter
  \<^verbatim>\<open>mpi_gidoffset\<close> and its local counter \<^verbatim>\<open>links\<close>.
\<close>

record link_state =
  pfof :: "int \<Rightarrow> int"
  Len :: "int \<Rightarrow> int"
  mpi_foftask :: "int \<Rightarrow> int"
  mpi_gidoffset :: int
  links :: int

text \<open>The body of the \<^verbatim>\<open>do ... while\<close> loop that relabels one particle of a chain.\<close>

definition relabel_one :: "(int \<Rightarrow> Particle) \<Rightarrow> fofdata_in \<Rightarrow> int \<Rightarrow> int \<Rightarrow> link_state \<Rightarrow> link_state" where
  "relabel_one Part f oldlen ss st =
     st\<lparr>pfof := (pfof st)(GetID (Part ss) := fd_iGroup f),
        mpi_foftask := (mpi_foftask st)(GetID (Part ss) := fd_iGroupTask f),
        Len := (Len st)(ss := fd_iLen f + oldlen)\<rparr>"

text \<open>
  \<^verbatim>\<open>do { ... } while ((ss = Next[ss]) >= 0);\<close> The walk does not end on a cyclic
  \<^verbatim>\<open>Next\<close>; then the result is \<open>None\<close>.
\<close>

partial_function (option) relabel_chain ::
  "(int \<Rightarrow> Particle) \<Rightarrow> (int \<Rightarrow> int) \<Rightarrow> fofdata_in \<Rightarrow> int \<Rightarrow> int \<Rightarrow> link_state \<Rightarrow> link_state option" where
  "relabel_chain Part Next f oldlen ss st =
     (if Next ss \<ge> 0 then relabel_chain Part Next f oldlen (Next ss) (relabel_one Part f oldlen ss st)
      else Some (relabel_one Part f oldlen ss st))"

text \<open>
  The body of the loop over the candidates \<open>k\<close> of one imported record: \<open>pget\<close> is
  \<^verbatim>\<open>PartDataGet[i]\<close>, \<open>f\<close> is \<^verbatim>\<open>FoFDataGet[i]\<close>, whose length the body may update.
\<close>

definition link_candidate ::
  "(int \<Rightarrow> Particle) \<Rightarrow> (int \<Rightarrow> int) \<Rightarrow> (int \<Rightarrow> int) \<Rightarrow> int \<Rightarrow> Particle \<Rightarrow> int \<Rightarrow>
   fofdata_in \<times> link_state \<Rightarrow> (fofdata_in \<times> link_state) option" where
  "link_candidate Part Head Next mpi_maxgid pget k fs =
     (case fs of (f, st) \<Rightarrow>
        if fd_iGroup f = 0 then
          (if pfof st (GetID (Part (Head k))) = 0 \<and> GetPID (Part (Head k)) > GetPID pget then
             Some (f, st\<lparr>pfof := (pfof st)(GetID (Part k) := mpi_maxgid + mpi_gidoffset st),
                         mpi_gidoffset := mpi_gidoffset st + 1,
                         Len := (Len st)(k := 1),
                         mpi_foftask := (mpi_foftask st)(GetID (Part k) := fd_iGroupTask f),
                         links := links st + 1\<rparr>)
           else Some (f, st))
        else if pfof st (GetID (Part (Head k))) > 0 then
          (if pfof st (GetID (Part (Head k))) > fd_iGroup f then
             (case relabel_chain Part Next f (Len st k) (Head k) st of
                None \<Rightarrow> None
              | Some st1 \<Rightarrow>
                  Some (f\<lparr>fd_iLen := fd_iLen f + Len st k\<rparr>, st1\<lparr>links := links st1 + 1\<rparr>))
           else Some (f, st))
        else
          Some (f\<lparr>fd_iLen := fd_iLen f + 1\<rparr>,
                st\<lparr>pfof := (pfof st)(GetID (Part k) := fd_iGroup f),
                   Len := (Len st)(k := fd_iLen f),
                   mpi_foftask := (mpi_foftask st)(GetID (Part k) := fd_iGroupTask f),
                   links := links st + 1\<rparr>))"

text \<open>The loop over the candidates that the ball search returned for one import.\<close>

fun link_candidates ::
  "(int \<Rightarrow> Particle) \<Rightarrow> (int \<Rightarrow> int) \<Rightarrow> (int \<Rightarrow> int) \<Rightarrow> int \<Rightarrow> Particle \<Rightarrow> int list \<Rightarrow>
   fofdata_in \<times> link_state \<Rightarrow> (fofdata_in \<times> link_state) option" where
  "link_candidates Part Head Next mpi_maxgid pget [] fs = Some fs"
| "link_candidates Part Head Next mpi_maxgid pget (k # ks) fs =
     (case link_candidate Part Head Next mpi_maxgid pget k fs of
        None \<Rightarrow> None
      | Some fs1 \<Rightarrow> link_candidates Part Head Next mpi_maxgid pget ks fs1)"

text \<open>
  The loop over the imports. The search tree is outside the sources: \<open>SearchBallPosTagged\<close>
  gives, for an imported particle, the local indices within the linking distance. The
  result is the updated \<^verbatim>\<open>FoFDataGet\<close> and the state, whose \<open>links\<close> the source
  returns.
\<close>

fun link_imports ::
  "(int \<Rightarrow> Particle) \<Rightarrow> (int \<Rightarrow> int) \<Rightarrow> (int \<Rightarrow> int) \<Rightarrow> int \<Rightarrow> (Particle \<Rightarrow> int list) \<Rightarrow>
   (Particle \<times> fofdata_in) list \<Rightarrow> link_state \<Rightarrow> (fofdata_in list \<times> link_state) option" where
  "link_imports Part Head Next mpi_maxgid SearchBallPosTagged [] st = Some ([], st)"
| "link_imports Part Head Next mpi_maxgid SearchBallPosTagged ((pget, f) # rest) st =
     (case link_candidates Part Head Next mpi_maxgid pget (SearchBallPosTagged pget) (f, st) of
        None \<Rightarrow> None
      | Some (f1, st1) \<Rightarrow>
          (case link_imports Part Head Next mpi_maxgid SearchBallPosTagged rest st1 of
             None \<Rightarrow> None
           | Some (fs, st2) \<Rightarrow> Some (f1 # fs, st2)))"

definition MPILinkAcross ::
  "(int \<Rightarrow> Particle) \<Rightarrow> (int \<Rightarrow> int) \<Rightarrow> (int \<Rightarrow> int) \<Rightarrow> int \<Rightarrow> (Particle \<Rightarrow> int list) \<Rightarrow>
   Particle list \<Rightarrow> fofdata_in list \<Rightarrow> link_state \<Rightarrow> (fofdata_in list \<times> link_state) option" where
  "MPILinkAcross Part Head Next mpi_maxgid SearchBallPosTagged PartDataGet FoFDataGet st =
     link_imports Part Head Next mpi_maxgid SearchBallPosTagged (zip PartDataGet FoFDataGet)
       (st\<lparr>links := 0\<rparr>)"

text \<open>
  A chain of the local linked list: the particles met from \<open>ss\<close> along \<^verbatim>\<open>Next\<close> up to
  the first negative entry.
\<close>

fun is_chain :: "(int \<Rightarrow> int) \<Rightarrow> int \<Rightarrow> int list \<Rightarrow> bool" where
  "is_chain Next ss [] = False"
| "is_chain Next ss [x] = (x = ss \<and> Next ss < 0)"
| "is_chain Next ss (x # y # ys) = (x = ss \<and> Next ss \<ge> 0 \<and> is_chain Next (Next ss) (y # ys))"

text \<open>
  A small local domain for the examples: particles 0 and 1 form one chain with head 0,
  particle 2 is alone; particle \<open>i\<close> has ID \<open>i\<close> and PID \<open>10 + i\<close>. In \<open>ex_state g\<close> the
  chain has group id \<open>g\<close> and particle 2 is ungrouped. \<open>ex_import g\<close> is an imported record
  of group \<open>g\<close>, owned by task 1, of length 4; \<open>ex_pget q\<close> is an imported particle with PID
  \<open>q\<close>.
\<close>

definition ex_Part :: "int \<Rightarrow> Particle" where
  "ex_Part i = \<lparr>GetID = i, GetPID = 10 + i, GetType = 1\<rparr>"

definition ex_Head :: "int \<Rightarrow> int" where
  "ex_Head i = (if i = 2 then 2 else 0)"

definition ex_Next :: "int \<Rightarrow> int" where
  "ex_Next i = (if i = 0 then 1 else - 1)"

definition ex_state :: "int \<Rightarrow> link_state" where
  "ex_state g =
     \<lparr>pfof = (\<lambda>_. 0)(0 := g, 1 := g), Len = (\<lambda>_. 1)(0 := 2, 1 := 2), mpi_foftask = (\<lambda>_. 0),
      mpi_gidoffset = 0, links = 0\<rparr>"

definition ex_import :: "int \<Rightarrow> fofdata_in" where
  "ex_import g = \<lparr>fd_Index = 0, fd_Task = 0, fd_iGroup = g, fd_iGroupTask = 1, fd_iLen = 4\<rparr>"

definition ex_pget :: "int \<Rightarrow> Particle" where
  "ex_pget q = \<lparr>GetID = 0, GetPID = q, GetType = 1\<rparr>"

section \<open>Export planning on the mesh\<close>

text \<open>
  A read or write outside a \<^verbatim>\<open>std::vector\<close> is undefined behaviour in the source; the
  model stops with \<open>OutOfBounds\<close>.
\<close>

datatype fault = OutOfBounds

text \<open>
  The cell index that \<^verbatim>\<open>MPIGetCellNodeIDListInSearchUsingMesh\<close> computes from the
  three loop variables. Each coordinate is folded back into the grid once:
  \<^verbatim>\<open>if (iz<0) index+=n+iz; else if (iz>=n) index+=iz-n; else index+=iz;\<close>
\<close>

definition wrap_cell :: "int \<Rightarrow> int \<Rightarrow> int" where
  "wrap_cell numcellsperdim i =
     (if i < 0 then numcellsperdim + i
      else if i \<ge> numcellsperdim then i - numcellsperdim
      else i)"

definition cell_index :: "int \<Rightarrow> int \<Rightarrow> int \<Rightarrow> int \<Rightarrow> int" where
  "cell_index numcellsperdim ix iy iz =
     wrap_cell numcellsperdim iz
     + wrap_cell numcellsperdim iy * numcellsperdim
     + wrap_cell numcellsperdim ix * numcellsperdim * numcellsperdim"

text \<open>
  What the body of the innermost loop appends for one cell: the owner of the cell unless it
  is this task, then the tasks newly associated with the cell (\<^verbatim>\<open>opt.newcellnodeids\<close>,
  which may have size zero) unless they are this task.
\<close>

definition cell_nodes :: "int list \<Rightarrow> int list list \<Rightarrow> int \<Rightarrow> int \<Rightarrow> fault + int list" where
  "cell_nodes cellnodeids newcellnodeids ThisTask index =
     (if index < 0 \<or> index \<ge> int (length cellnodeids) then Inl OutOfBounds
      else
        (let owner = (if cellnodeids ! nat index \<noteq> ThisTask then [cellnodeids ! nat index] else [])
         in if length newcellnodeids = 0 then Inr owner
            else if index \<ge> int (length newcellnodeids) then Inl OutOfBounds
            else if length (newcellnodeids ! nat index) = 0 then Inr owner
            else Inr (owner @ filter (\<lambda>c. c \<noteq> ThisTask) (newcellnodeids ! nat index))))"

fun collect :: "(int \<Rightarrow> fault + int list) \<Rightarrow> int list \<Rightarrow> fault + int list" where
  "collect f [] = Inr []"
| "collect f (i # rest) =
     (case f i of
        Inl e \<Rightarrow> Inl e
      | Inr xs \<Rightarrow> (case collect f rest of Inl e \<Rightarrow> Inl e | Inr ys \<Rightarrow> Inr (xs @ ys)))"

text \<open>
  The search interval reaches the routine as floating point bounds; the six loop bounds
  \<^verbatim>\<open>ixstart, ixend, iystart, iyend, izstart, izend\<close> (the floors of the scaled bounds)
  are the input here.
\<close>

definition MPIGetCellNodeIDListInSearchUsingMesh ::
  "int \<Rightarrow> int list \<Rightarrow> int list list \<Rightarrow> int \<Rightarrow> int \<times> int \<times> int \<times> int \<times> int \<times> int \<Rightarrow> fault + int list" where
  "MPIGetCellNodeIDListInSearchUsingMesh numcellsperdim cellnodeids newcellnodeids ThisTask r =
     (case r of (ixstart, ixend, iystart, iyend, izstart, izend) \<Rightarrow>
        collect (cell_nodes cellnodeids newcellnodeids ThisTask)
          (concat (map (\<lambda>ix. concat (map (\<lambda>iy. map (\<lambda>iz. cell_index numcellsperdim ix iy iz)
             [izstart..izend]) [iystart..iyend])) [ixstart..ixend])))"

text \<open>
  The loop of \<^verbatim>\<open>MPIBuildParticleExportListUsingMesh\<close> over the list of one particle:
  the per-particle flags \<^verbatim>\<open>sent_mpi_domain\<close>, the export records written so far and
  the send counts \<^verbatim>\<open>nsend_local\<close>.
\<close>

record export_state =
  es_sent_mpi_domain :: "int list"
  es_FoFDataIn :: "fofdata_in list"
  es_nsend_local :: "int list"

fun export_to_nodes :: "(int \<Rightarrow> fofdata_in) \<Rightarrow> int list \<Rightarrow> export_state \<Rightarrow> fault + export_state" where
  "export_to_nodes mk [] s = Inr s"
| "export_to_nodes mk (cellnodeID # rest) s =
     (if cellnodeID < 0 \<or> cellnodeID \<ge> int (length (es_sent_mpi_domain s))
         \<or> cellnodeID \<ge> int (length (es_nsend_local s)) then Inl OutOfBounds
      else if es_sent_mpi_domain s ! nat cellnodeID = 1 then export_to_nodes mk rest s
      else export_to_nodes mk rest
             \<lparr>es_sent_mpi_domain = (es_sent_mpi_domain s)
                 [nat cellnodeID := es_sent_mpi_domain s ! nat cellnodeID + 1],
              es_FoFDataIn = es_FoFDataIn s @ [mk cellnodeID],
              es_nsend_local = (es_nsend_local s)
                 [nat cellnodeID := es_nsend_local s ! nat cellnodeID + 1]\<rparr>)"

text \<open>
  The loop over the particles. \<open>cells i\<close> gives the six loop bounds of the search interval
  of particle \<open>i\<close>; \<open>Part\<close>, \<open>pfof'\<close> and \<open>Len'\<close> are the stores \<^verbatim>\<open>Part\<close>,
  \<^verbatim>\<open>pfof\<close> and \<^verbatim>\<open>Len\<close> the records are filled from.
\<close>

fun export_particles ::
  "int \<Rightarrow> int list \<Rightarrow> int list list \<Rightarrow> int \<Rightarrow> int \<Rightarrow>
   (int \<Rightarrow> int \<times> int \<times> int \<times> int \<times> int \<times> int) \<Rightarrow>
   (int \<Rightarrow> Particle) \<Rightarrow> (int \<Rightarrow> int) \<Rightarrow> (int \<Rightarrow> int) \<Rightarrow>
   int list \<Rightarrow> fofdata_in list \<times> int list \<Rightarrow> fault + fofdata_in list \<times> int list" where
  "export_particles numcellsperdim cellnodeids newcellnodeids ThisTask NProcs cells Part pfof' Len'
     [] out = Inr out"
| "export_particles numcellsperdim cellnodeids newcellnodeids ThisTask NProcs cells Part pfof' Len'
     (i # rest) out =
     (case MPIGetCellNodeIDListInSearchUsingMesh numcellsperdim cellnodeids newcellnodeids
             ThisTask (cells i) of
        Inl e \<Rightarrow> Inl e
      | Inr cellnodeidlist \<Rightarrow>
          (case export_to_nodes
                  (\<lambda>cellnodeID. \<lparr>fd_Index = i, fd_Task = cellnodeID,
                                 fd_iGroup = pfof' (GetID (Part i)), fd_iGroupTask = ThisTask,
                                 fd_iLen = Len' i\<rparr>)
                  cellnodeidlist
                  \<lparr>es_sent_mpi_domain = replicate (nat NProcs) 0, es_FoFDataIn = fst out,
                   es_nsend_local = snd out\<rparr> of
             Inl e \<Rightarrow> Inl e
           | Inr s \<Rightarrow>
               export_particles numcellsperdim cellnodeids newcellnodeids ThisTask NProcs cells
                 Part pfof' Len' rest (es_FoFDataIn s, es_nsend_local s)))"

definition MPIBuildParticleExportListUsingMesh ::
  "int \<Rightarrow> int list \<Rightarrow> int list list \<Rightarrow> int \<Rightarrow> int \<Rightarrow>
   (int \<Rightarrow> int \<times> int \<times> int \<times> int \<times> int \<times> int) \<Rightarrow>
   (int \<Rightarrow> Particle) \<Rightarrow> (int \<Rightarrow> int) \<Rightarrow> (int \<Rightarrow> int) \<Rightarrow> int \<Rightarrow>
   fault + fofdata_in list \<times> int list" where
  "MPIBuildParticleExportListUsingMesh numcellsperdim cellnodeids newcellnodeids ThisTask NProcs
     cells Part pfof' Len' nbodies =
     export_particles numcellsperdim cellnodeids newcellnodeids ThisTask NProcs cells Part pfof' Len'
       [0..nbodies - 1] ([], replicate (nat NProcs) 0)"

text \<open>
  A mesh of resolution 2 on two tasks for the examples: task 1 owns the cell (0, 1, 0)
  (index 2), task 0 owns the rest. The search interval of every particle of \<open>ex_cells_far\<close>
  covers the cell column \<open>iz = 4\<close> only, that of \<open>ex_cells_near\<close> the columns \<open>iy = 0, 1\<close>
  and \<open>iz = -1, 0\<close>.
\<close>

definition ex_cellnodeids :: "int list" where
  "ex_cellnodeids = [0, 0, 1, 0, 0, 0, 0, 0]"

definition ex_cells_far :: "int \<Rightarrow> int \<times> int \<times> int \<times> int \<times> int \<times> int" where
  "ex_cells_far i = (0, 0, 0, 0, 4, 4)"

definition ex_cells_near :: "int \<Rightarrow> int \<times> int \<times> int \<times> int \<times> int \<times> int" where
  "ex_cells_near i = (0, 0, 0, 1, - 1, 0)"

text \<open>
  A search interval stays within one period of the box when its loop bounds lie between
  \<open>-numcellsperdim\<close> and \<open>2 * numcellsperdim - 1\<close> on each axis.
\<close>

definition within_one_period :: "int \<Rightarrow> int \<times> int \<times> int \<times> int \<times> int \<times> int \<Rightarrow> bool" where
  "within_one_period numcellsperdim r =
     (case r of (ixstart, ixend, iystart, iyend, izstart, izend) \<Rightarrow>
        - numcellsperdim \<le> ixstart \<and> ixend < 2 * numcellsperdim \<and>
        - numcellsperdim \<le> iystart \<and> iyend < 2 * numcellsperdim \<and>
        - numcellsperdim \<le> izstart \<and> izend < 2 * numcellsperdim)"

text \<open>
  The invariant of the loop over the list of particle \<open>i\<close>: the flags are 0 or 1, no two
  records have the same particle and destination, no record goes to this task, a record of
  particle \<open>i\<close> has its flag set, no record belongs to a particle of \<open>later\<close>, and nothing
  is counted for this task.
\<close>

definition export_inv :: "int \<Rightarrow> int \<Rightarrow> nat \<Rightarrow> int set \<Rightarrow> export_state \<Rightarrow> bool" where
  "export_inv i ThisTask P later s =
     (length (es_sent_mpi_domain s) = P \<and> length (es_nsend_local s) = P \<and>
      (\<forall>t < P. es_sent_mpi_domain s ! t = 0 \<or> es_sent_mpi_domain s ! t = 1) \<and>
      distinct (map (\<lambda>r. (fd_Index r, fd_Task r)) (es_FoFDataIn s)) \<and>
      (\<forall>r \<in> set (es_FoFDataIn s).
         fd_Task r \<noteq> ThisTask \<and> fd_Index r \<notin> later \<and>
         (fd_Index r = i \<longrightarrow>
            0 \<le> fd_Task r \<and> fd_Task r < int P \<and> es_sent_mpi_domain s ! nat (fd_Task r) = 1)) \<and>
      es_nsend_local s ! nat ThisTask = 0)"

section \<open>Mesh domain decomposition\<close>

text \<open>
  \<^verbatim>\<open>struct zcurvestruct\<close> of \<^verbatim>\<open>MPIInitialDomainDecompositionWithMesh\<close>: the three
  cell coordinates, the cell index and the 48-bit key.
\<close>

record zcurvestruct =
  zc_coord :: "nat list"
  zc_index :: nat
  zc_zcurvevalue :: "48 word"

text \<open>
  The key: bit \<open>j*3+i\<close> of the key is bit \<open>j\<close> of \<^verbatim>\<open>bitset<16>\<close> of coordinate \<open>i\<close>.
\<close>

definition zcurve_key :: "nat list \<Rightarrow> 48 word" where
  "zcurve_key c =
     fold (\<lambda>j w. fold (\<lambda>i w. if bit (word_of_nat (c ! i) :: 16 word) j
                                then set_bit (j * 3 + i) w else unset_bit (j * 3 + i) w)
                     [0..<3] w)
       [0..<16] 0"

text \<open>
  The three nested loops that fill \<^verbatim>\<open>zcurve\<close>. The entry written at
  \<^verbatim>\<open>index = ix*n*n + iy*n + iz\<close> is the entry at that position of the list, since the
  loops run through the indices in increasing order.
\<close>

definition zcurve_fill :: "nat \<Rightarrow> zcurvestruct list" where
  "zcurve_fill numcellsperdim =
     concat (map (\<lambda>ix. concat (map (\<lambda>iy. map (\<lambda>iz.
        \<lparr>zc_coord = [ix, iy, iz],
         zc_index = ix * numcellsperdim * numcellsperdim + iy * numcellsperdim + iz,
         zc_zcurvevalue = zcurve_key [ix, iy, iz]\<rparr>)
       [0..<numcellsperdim]) [0..<numcellsperdim])) [0..<numcellsperdim])"

text \<open>The comparator of the sort: \<^verbatim>\<open>a.zcurvevalue.to_ullong() < b.zcurvevalue.to_ullong()\<close>.\<close>

definition zcurve_less :: "zcurvestruct \<Rightarrow> zcurvestruct \<Rightarrow> bool" where
  "zcurve_less a b = (unat (zc_zcurvevalue a) < unat (zc_zcurvevalue b))"

text \<open>
  The state of the assignment loop: the current task, the number of cells it has so far,
  and the tables \<^verbatim>\<open>opt.cellnodeids\<close>, \<^verbatim>\<open>opt.cellnodeorder\<close> and
  \<^verbatim>\<open>numcellspertask\<close>.
\<close>

record mesh_assign =
  ma_itask :: int
  ma_count :: int
  ma_cellnodeids :: "int list"
  ma_cellnodeorder :: "nat list"
  ma_numcellspertask :: "int list"

fun assign_cells :: "int \<Rightarrow> int \<Rightarrow> zcurvestruct list \<Rightarrow> nat \<Rightarrow> mesh_assign \<Rightarrow> mesh_assign" where
  "assign_cells nsub NProcs [] i s = s"
| "assign_cells nsub NProcs (z # zs) i s =
     (let count1 = (if ma_count s = nsub then 0 else ma_count s);
          itask1 = (if ma_count s = nsub then ma_itask s + 1 else ma_itask s);
          itask2 = (if itask1 = NProcs then itask1 - 1 else itask1)
      in assign_cells nsub NProcs zs (i + 1)
           \<lparr>ma_itask = itask2, ma_count = count1 + 1,
            ma_cellnodeids = (ma_cellnodeids s)[zc_index z := itask2],
            ma_cellnodeorder = (ma_cellnodeorder s)[i := zc_index z],
            ma_numcellspertask =
              (ma_numcellspertask s)[nat itask2 := ma_numcellspertask s ! nat itask2 + 1]\<rparr>)"

text \<open>
  The part of \<^verbatim>\<open>MPIInitialDomainDecompositionWithMesh\<close> that task 0 runs, for a
  resolution \<^verbatim>\<open>opt.numcellsperdim\<close> that is set; \<open>nsub\<close> is
  \<^verbatim>\<open>max((int)floor(n3/(double)NProcs), 1)\<close>.
\<close>

definition sorted_zcurve :: "nat \<Rightarrow> zcurvestruct list" where
  "sorted_zcurve numcellsperdim = std_sort zcurve_less (zcurve_fill numcellsperdim)"

definition MPIInitialDomainDecompositionWithMesh :: "nat \<Rightarrow> int \<Rightarrow> mesh_assign" where
  "MPIInitialDomainDecompositionWithMesh numcellsperdim NProcs =
     (let n3 = numcellsperdim * numcellsperdim * numcellsperdim;
          zcurve = sorted_zcurve numcellsperdim;
          nsub = max \<lfloor>(of_nat n3 :: real) / of_int NProcs\<rfloor> 1
      in assign_cells nsub NProcs zcurve 0
           \<lparr>ma_itask = 0, ma_count = 0, ma_cellnodeids = replicate n3 0,
            ma_cellnodeorder = replicate n3 0,
            ma_numcellspertask = replicate (nat NProcs) 0\<rparr>)"

section \<open>Rebalancing the mesh decomposition\<close>


















section \<open>The extra-property side channel\<close>

text \<open>
  A particle owns its optional hydro properties through a pointer. After the byte-wise copy
  of a received chunk the pointer is meaningless (\<open>Stale\<close>);
  \<^verbatim>\<open>NullHydroProperties\<close> releases it (\<open>Null\<close>); \<^verbatim>\<open>SetHydroProperties\<close> makes
  the particle own a property object (\<open>Owned\<close>). The star, black hole and extra dark
  matter routines have the same shape with their own field lists.
\<close>

datatype 'a handle = Stale | Null | Owned 'a

record HydroProperties =
  InternalProperties :: "string \<Rightarrow> real option"
  Chemistry :: "string \<Rightarrow> real option"
  ChemistryProduction :: "string \<Rightarrow> real option"

text \<open>
  The body of the loop over the received indices: a fresh property object
  (\<^verbatim>\<open>HydroProperties x;\<close>) filled from the flat buffer in the order of the three field
  name lists of the options.
\<close>

definition unpack_HydroProperties ::
  "string list \<Rightarrow> string list \<Rightarrow> string list \<Rightarrow> real list \<Rightarrow> nat \<Rightarrow> HydroProperties" where
  "unpack_HydroProperties internalprop chem chemproduction proprecvbuff i =
     (let numextrafields = length internalprop + length chem + length chemproduction;
          x0 = \<lparr>InternalProperties = Map.empty, Chemistry = Map.empty,
                ChemistryProduction = Map.empty\<rparr>;
          x1 = fold (\<lambda>iextra x. x\<lparr>InternalProperties := (InternalProperties x)
                       (internalprop ! iextra \<mapsto> proprecvbuff ! (i * numextrafields + iextra + 0))\<rparr>)
                 [0..<length internalprop] x0;
          offset1 = length internalprop;
          x2 = fold (\<lambda>iextra x. x\<lparr>Chemistry := (Chemistry x)
                       (chem ! iextra \<mapsto> proprecvbuff ! (i * numextrafields + iextra + offset1))\<rparr>)
                 [0..<length chem] x1;
          offset2 = offset1 + length chem
      in fold (\<lambda>iextra x. x\<lparr>ChemistryProduction := (ChemistryProduction x)
                       (chemproduction ! iextra \<mapsto> proprecvbuff ! (i * numextrafields + iextra + offset2))\<rparr>)
                 [0..<length chemproduction] x2)"

text \<open>
  The receiving half of \<^verbatim>\<open>MPISendReceiveHydroInfoBetweenThreads\<close>, from the return of
  \<^verbatim>\<open>exchange_indices_and_props\<close> on: \<open>indicesrecv\<close> and \<open>proprecvbuff\<close> are what the
  partner sent, \<open>Part\<close> is the received chunk of \<open>nlocal\<close> particles (the store of their
  property handles).
\<close>

definition MPISendReceiveHydroInfoBetweenThreads_recv ::
  "string list \<Rightarrow> string list \<Rightarrow> string list \<Rightarrow> int list \<Rightarrow> real list \<Rightarrow> int \<Rightarrow>
   (int \<Rightarrow> HydroProperties handle) \<Rightarrow> (int \<Rightarrow> HydroProperties handle)" where
  "MPISendReceiveHydroInfoBetweenThreads_recv internalprop chem chemproduction indicesrecv
     proprecvbuff nlocal Part =
     (let numextrafields = length internalprop + length chem + length chemproduction
      in if numextrafields = 0 then Part
         else if length indicesrecv = 0 then Part
         else
           (let Part1 = fold (\<lambda>i P. P(int i := Null)) [0..<nat nlocal] Part
            in fold (\<lambda>i P. P(indicesrecv ! i :=
                        Owned (unpack_HydroProperties internalprop chem chemproduction proprecvbuff i)))
                 [0..<length indicesrecv] Part1))"

text \<open>
  The receiving half of \<^verbatim>\<open>MPISendReceiveFOFHydroInfoBetweenThreads\<close>; \<open>Part\<close> is the
  store of the handles of \<^verbatim>\<open>FoFGroupDataLocal[...].p\<close>.
\<close>

definition MPISendReceiveFOFHydroInfoBetweenThreads_recv ::
  "string list \<Rightarrow> string list \<Rightarrow> string list \<Rightarrow> int list \<Rightarrow> real list \<Rightarrow>
   (int \<Rightarrow> HydroProperties handle) \<Rightarrow> (int \<Rightarrow> HydroProperties handle)" where
  "MPISendReceiveFOFHydroInfoBetweenThreads_recv internalprop chem chemproduction indicesrecv
     proprecvbuff Part =
     (let numextrafields = length internalprop + length chem + length chemproduction
      in if numextrafields = 0 then Part
         else fold (\<lambda>i P. P(indicesrecv ! i :=
                        Owned (unpack_HydroProperties internalprop chem chemproduction proprecvbuff i)))
                 [0..<length indicesrecv] Part)"

text \<open>A received chunk whose handles are all left over from the byte-wise copy.\<close>

definition stale_chunk :: "int \<Rightarrow> HydroProperties handle" where
  "stale_chunk i = Stale"

text \<open>
  A chunk of group records as the sender leaves it: \<^verbatim>\<open>MPIFillFOFBuffWithHydroInfo\<close>
  releases the handle of every record it packs before the records are copied.
\<close>

definition released_chunk :: "int \<Rightarrow> HydroProperties handle" where
  "released_chunk i = Null"

section \<open>Message tags of the chunk loops\<close>

text \<open>
  The chunk loop of \<^verbatim>\<open>MPIBuildParticleExportList\<close> sends, in round \<open>ichunk\<close>, the
  group records with tag \<^verbatim>\<open>TAG_FOF_A\<close> and the particles with tag \<^verbatim>\<open>TAG_FOF_B\<close>;
  the chunk loop of \<^verbatim>\<open>MPIUpdateExportList\<close> sends the group records with tag
  \<^verbatim>\<open>TAG_FOF_A+ichunk\<close>. The tag constants are defined outside the sources and are
  parameters here. Each round is listed with its tags and the sizes and offsets it uses.
\<close>

definition MPIBuildParticleExportList_rounds ::
  "int \<Rightarrow> int \<Rightarrow> int \<Rightarrow> int \<Rightarrow> int \<Rightarrow> (int \<times> int \<times> comm_chunks) list option" where
  "MPIBuildParticleExportList_rounds TAG_FOF_A TAG_FOF_B nsend nrecv maxchunksize =
     map_option (\<lambda>sched. map (\<lambda>(ichunk, c). (TAG_FOF_A, TAG_FOF_B, c)) (enumerate 0 sched))
       (chunk_schedule nsend nrecv maxchunksize)"

definition MPIUpdateExportList_rounds ::
  "int \<Rightarrow> int \<Rightarrow> int \<Rightarrow> int \<Rightarrow> (int \<times> comm_chunks) list option" where
  "MPIUpdateExportList_rounds TAG_FOF_A nsend nrecv maxchunksize =
     map_option (\<lambda>sched. map (\<lambda>(ichunk, c). (TAG_FOF_A + int ichunk, c)) (enumerate 0 sched))
       (chunk_schedule nsend nrecv maxchunksize)"

section \<open>Sorting and run counting in the group compaction\<close>

text \<open>The legacy comparator \<^verbatim>\<open>fof_id_cmp\<close> and the comparator \<^verbatim>\<open>fof_id_cmp_vec\<close>.\<close>

definition fof_id_cmp :: "fofid_in \<Rightarrow> fofid_in \<Rightarrow> int" where
  "fof_id_cmp a b =
     (if fi_iGroup a > fi_iGroup b then - 1
      else if fi_iGroup a < fi_iGroup b then 1
      else if GetType (fi_p a) < GetType (fi_p b) then - 1
      else if GetType (fi_p a) > GetType (fi_p b) then 1
      else if GetID (fi_p a) < GetID (fi_p b) then - 1
      else if GetID (fi_p a) > GetID (fi_p b) then 1
      else 0)"

definition fof_id_cmp_vec :: "fofid_in \<Rightarrow> fofid_in \<Rightarrow> bool" where
  "fof_id_cmp_vec a b =
     (if fi_iGroup a < fi_iGroup b then True
      else if fi_iGroup a > fi_iGroup b then False
      else (if GetType (fi_p a) < GetType (fi_p b) then True
            else if GetType (fi_p a) > GetType (fi_p b) then False
            else (if GetID (fi_p a) < GetID (fi_p b) then True else False)))"

text \<open>
  The run-counting loop of \<^verbatim>\<open>MPICompileGroups\<close> and \<^verbatim>\<open>MPIBaryonCompileGroups\<close>:
  \<^verbatim>\<open>
  for (i=0,start=0;i<nbodies;i++) {
      if (id[i] != id[start]) {
          if ((i-start)<minsize) for (Int_t j=start;j<i;j++) id[j] = 0;
          else ngroups++;
          start=i;
      }
      if (stop(id[i])) break;
  }
  \<close>
  The loop reads and writes one integer of each array element (the particle's ID, which
  holds the negated group id, or the record's \<^verbatim>\<open>iGroup\<close>), so the array is the list of
  these integers. \<open>close_run\<close> is the body of the first \<^verbatim>\<open>if\<close>; the state is
  \<open>(start, ids, ngroups)\<close>.
\<close>

definition close_run :: "int \<Rightarrow> nat \<Rightarrow> nat \<times> int list \<times> int \<Rightarrow> nat \<times> int list \<times> int" where
  "close_run minsize i s =
     (case s of (start, ids, ngroups) \<Rightarrow>
        if ids ! i \<noteq> ids ! start then
          (if int i - int start < minsize
           then (i, fold (\<lambda>j xs. xs[j := 0]) [start..<i] ids, ngroups)
           else (i, ids, ngroups + 1))
        else (start, ids, ngroups))"

function count_group_runs ::
  "(int \<Rightarrow> bool) \<Rightarrow> int \<Rightarrow> nat \<Rightarrow> nat \<Rightarrow> nat \<times> int list \<times> int \<Rightarrow> int list \<times> int" where
  "count_group_runs stop minsize nbodies i s =
     (if i < nbodies then
        (let s1 = close_run minsize i s
         in if stop (fst (snd s1) ! i) then snd s1
            else count_group_runs stop minsize nbodies (i + 1) s1)
      else snd s)"
  by pat_completeness auto
termination
  by (relation "measure (\<lambda>(stop, minsize, nbodies, i, s). nbodies - i)") auto

declare count_group_runs.simps [simp del]

text \<open>
  \<^verbatim>\<open>MPICompileGroups\<close> from the first sort to the assignment of \<^verbatim>\<open>pfof\<close>. The
  particle IDs hold the negated group ids; \<^verbatim>\<open>IDCompareVec\<close> orders the particles by
  ID, so the ungrouped ones (ID 0) come last. The run-counting loop stops at the first ID
  that is not negative. After it the array is sorted again,
  \<^verbatim>\<open>for (i=nbodies-NExport; i< nbodies; i++) Part[i].SetID(0);\<close> sets the IDs of the last
  \<^verbatim>\<open>NExport\<close> particles to 0 (\<^verbatim>\<open>NExport\<close> is the global export count of the linking
  stage; with more of them than particles the loop starts below the array), and
  \<^verbatim>\<open>pfof[i]\<close> becomes the negated ID. The result is \<^verbatim>\<open>pfof\<close> and the group count
  of the loop.
\<close>

definition MPICompileGroups_filter :: "int \<Rightarrow> int \<Rightarrow> int list \<Rightarrow> fault + (int list \<times> int)" where
  "MPICompileGroups_filter NExport minsize ids =
     (let nbodies = length ids;
          sorted = std_sort (\<lambda>a b. a < b) ids;
          (filtered, ngroups) = count_group_runs (\<lambda>x. x \<ge> 0) minsize nbodies 0 (0, sorted, 0);
          resorted = std_sort (\<lambda>a b. a < b) filtered
      in if int nbodies - NExport < 0 then Inl OutOfBounds
         else Inr (map uminus
                     (fold (\<lambda>j xs. xs[j := 0]) [nat (int nbodies - NExport)..<nbodies] resorted),
                   ngroups))"

text \<open>
  In the branch of \<^verbatim>\<open>MPIBaryonCompileGroups\<close> that works on
  \<^verbatim>\<open>FoFGroupDataLocal\<close> the array is sorted with \<^verbatim>\<open>fof_id_cmp_vec\<close> and the loop
  stops at the first record with \<^verbatim>\<open>iGroup == 0\<close>. Before the comparator was replaced the
  array was sorted with \<^verbatim>\<open>qsort\<close> and \<^verbatim>\<open>fof_id_cmp\<close>.
\<close>

definition MPIBaryonCompileGroups_filter :: "fofid_in list \<Rightarrow> int \<Rightarrow> int list \<times> int" where
  "MPIBaryonCompileGroups_filter FoFGroupDataLocal minsize =
     (let sorted = std_sort fof_id_cmp_vec FoFGroupDataLocal
      in count_group_runs (\<lambda>g. g = 0) minsize (length sorted) 0 (0, map fi_iGroup sorted, 0))"

definition MPIBaryonCompileGroups_filter_legacy :: "fofid_in list \<Rightarrow> int \<Rightarrow> int list \<times> int" where
  "MPIBaryonCompileGroups_filter_legacy FoFGroupDataLocal minsize =
     (let sorted = qsort fof_id_cmp FoFGroupDataLocal
      in count_group_runs (\<lambda>g. g = 0) minsize (length sorted) 0 (0, map fi_iGroup sorted, 0))"

section \<open>Facts about the machine numbers\<close>

text \<open>A value in the range of \<^verbatim>\<open>int\<close> is converted to itself.\<close>

lemma int_of_Int_t_id: "- 2147483648 \<le> x \<Longrightarrow> x < 2147483648 \<Longrightarrow> int_of_Int_t x = x"
  by (simp add: int_of_Int_t_def)

text \<open>The exponent is the binary order of magnitude.\<close>

lemma exponent_of_bounds:
  assumes "x \<noteq> 0"
  shows "2 powi (exponent_of x) \<le> \<bar>x\<bar> \<and> \<bar>x\<bar> < 2 powi (exponent_of x + 1)"
proof (cases "1 \<le> \<bar>x\<bar>")
  case True
  define n where "n = \<lfloor>\<bar>x\<bar>\<rfloor>"
  have n: "0 < n" using True by (simp add: n_def)
  have e: "exponent_of x = bitlen n - 1" using True by (simp add: exponent_of_def n_def)
  have b: "1 \<le> bitlen n" using n by (simp add: bitlen_alt_def)
  from bitlen_bounds[OF n] have lo: "2 ^ nat (bitlen n - 1) \<le> n" and hi: "n < 2 ^ nat (bitlen n)"
    by simp_all
  have "(2::real) powi (bitlen n - 1) = 2 ^ nat (bitlen n - 1)" using b by (simp add: power_int_def)
  also have "\<dots> = of_int (2 ^ nat (bitlen n - 1))" by simp
  also have "\<dots> \<le> of_int n" using lo by (simp only: of_int_le_iff)
  also have "\<dots> \<le> \<bar>x\<bar>" by (simp add: n_def)
  finally have l: "2 powi (exponent_of x) \<le> \<bar>x\<bar>" by (simp add: e)
  have "n + 1 \<le> 2 ^ nat (bitlen n)" using hi by simp
  then have "(of_int (n + 1) :: real) \<le> of_int (2 ^ nat (bitlen n))" by (simp only: of_int_le_iff)
  then have "(of_int (n + 1) :: real) \<le> 2 ^ nat (bitlen n)" by simp
  moreover have "\<bar>x\<bar> < of_int (n + 1)" by (simp add: n_def)
  ultimately have "\<bar>x\<bar> < 2 ^ nat (bitlen n)" by linarith
  also have "\<dots> = 2 powi (bitlen n)" using b by (simp add: power_int_def)
  finally have u: "\<bar>x\<bar> < 2 powi (exponent_of x + 1)" by (simp add: e)
  from l u show ?thesis by simp
next
  case False
  define y where "y = 1 / \<bar>x\<bar>"
  have y: "1 < y" using False assms by (simp add: y_def)
  define n where "n = \<lceil>y\<rceil> - 1"
  have "2 \<le> \<lceil>y\<rceil>" using y by linarith
  then have n: "0 < n" by (simp add: n_def)
  have e: "exponent_of x = - bitlen n" using False by (simp add: exponent_of_def n_def y_def)
  have b: "1 \<le> bitlen n" using n by (simp add: bitlen_alt_def)
  from bitlen_bounds[OF n] have lo: "2 ^ nat (bitlen n - 1) \<le> n" and hi: "n < 2 ^ nat (bitlen n)"
    by simp_all
  have "(of_int (2 ^ nat (bitlen n - 1)) :: real) \<le> of_int n" using lo by (simp only: of_int_le_iff)
  then have "(2::real) ^ nat (bitlen n - 1) \<le> of_int n" by simp
  moreover have "of_int n < y" using ceiling_correct[of y] by (simp add: n_def)
  ultimately have ylo: "2 ^ nat (bitlen n - 1) < y" by linarith
  have "n + 1 \<le> 2 ^ nat (bitlen n)" using hi by simp
  then have "(of_int (n + 1) :: real) \<le> of_int (2 ^ nat (bitlen n))" by (simp only: of_int_le_iff)
  then have "(of_int (n + 1) :: real) \<le> 2 ^ nat (bitlen n)" by simp
  moreover have "y \<le> of_int (n + 1)" using ceiling_correct[of y] by (simp add: n_def)
  ultimately have yhi: "y \<le> 2 ^ nat (bitlen n)" by linarith
  have xpos: "0 < \<bar>x\<bar>" using assms by simp
  have xy: "\<bar>x\<bar> = 1 / y" by (simp add: y_def)
  have "1 / 2 ^ nat (bitlen n) \<le> 1 / y" using yhi y by (intro divide_left_mono) simp_all
  moreover have "(2::real) powi (- bitlen n) = 1 / 2 ^ nat (bitlen n)"
    using b by (simp add: power_int_def field_simps)
  ultimately have l: "2 powi (exponent_of x) \<le> \<bar>x\<bar>" by (simp add: e xy)
  have "1 / y < 1 / 2 ^ nat (bitlen n - 1)" using ylo y by (intro divide_strict_left_mono) simp_all
  moreover have "(2::real) powi (- bitlen n + 1) = 1 / 2 ^ nat (bitlen n - 1)"
  proof -
    have "- bitlen n + 1 = - (bitlen n - 1)" by simp
    then have "(2::real) powi (- bitlen n + 1) = inverse (2 powi (bitlen n - 1))"
      by (simp only: power_int_minus)
    also have "\<dots> = 1 / 2 ^ nat (bitlen n - 1)" using b by (simp add: power_int_def field_simps)
    finally show ?thesis .
  qed
  ultimately have u: "\<bar>x\<bar> < 2 powi (exponent_of x + 1)" by (simp add: e xy)
  from l u show ?thesis by simp
qed

lemma exponent_of_le:
  assumes "x \<noteq> 0" "\<bar>x\<bar> < 2 powi (k + 1)"
  shows "exponent_of x \<le> k"
proof (rule ccontr)
  assume "\<not> exponent_of x \<le> k"
  then have "k + 1 \<le> exponent_of x" by simp
  then have "(2::real) powi (k + 1) \<le> 2 powi (exponent_of x)" by (intro power_int_increasing) simp_all
  with exponent_of_bounds[OF assms(1)] assms(2) show False by linarith
qed

lemma exponent_of_ge:
  assumes "x \<noteq> 0" "2 powi k \<le> \<bar>x\<bar>"
  shows "k \<le> exponent_of x"
proof (rule ccontr)
  assume "\<not> k \<le> exponent_of x"
  then have "exponent_of x + 1 \<le> k" by simp
  then have "(2::real) powi (exponent_of x + 1) \<le> 2 powi k" by (intro power_int_increasing) simp_all
  with exponent_of_bounds[OF assms(1)] assms(2) show False by linarith
qed

lemma round_half_even_of_int: "round_half_even (of_int n) = n"
  by (simp add: round_half_even_def)

lemma round_half_even_le: "y \<le> of_int n \<Longrightarrow> round_half_even y \<le> n"
  unfolding round_half_even_def by (auto split: if_splits) linarith+

lemma round_half_even_ge: "of_int n \<le> y \<Longrightarrow> n \<le> round_half_even y"
  unfolding round_half_even_def by (auto split: if_splits) linarith+

lemma round_half_even_gt: "of_int n + 1 / 2 < y \<Longrightarrow> n + 1 \<le> round_half_even y"
  unfolding round_half_even_def by (auto split: if_splits) linarith+

text \<open>An integer below \<open>2^53\<close> is a binary64 number: converting it is exact.\<close>

lemma scale_of_int:
  assumes "q \<le> 0"
  shows "(of_int K :: real) / 2 powi q = of_int (K * 2 ^ nat (- q))"
    and "(of_int (K * 2 ^ nat (- q)) :: real) * 2 powi q = of_int K"
proof -
  have "(2::real) powi q = 2 powi (- (- q))" by simp
  also have "\<dots> = inverse (2 powi (- q))" by (simp only: power_int_minus)
  also have "\<dots> = inverse (2 ^ nat (- q))" using assms by (simp add: power_int_def)
  finally have "(2::real) powi q = inverse (2 ^ nat (- q))" .
  then show "(of_int K :: real) / 2 powi q = of_int (K * 2 ^ nat (- q))"
    and "(of_int (K * 2 ^ nat (- q)) :: real) * 2 powi q = of_int K"
    by (simp_all add: field_simps)
qed

lemma ulp_exponent_le0:
  assumes "\<bar>x\<bar> < 2 ^ 53"
  shows "max (exponent_of x - 52) (- 1074) \<le> 0"
proof (cases "x = 0")
  case True
  then show ?thesis by (simp add: exponent_of_def bitlen_alt_def)
next
  case False
  have "(2::real) powi (52 + 1) = 2 ^ 53" by (simp add: power_int_def)
  with assms have "\<bar>x\<bar> < 2 powi (52 + 1)" by simp
  from exponent_of_le[OF False this] show ?thesis by simp
qed

lemma two_powi_1024: "(2::real) powi 1024 = 2 ^ 1024"
  by (simp add: power_int_def)

lemma round_double_of_int:
  assumes "\<bar>k\<bar> < 2 ^ 53"
  shows "round_double (of_int k) = Finite (of_int k)"
proof -
  define q where "q = max (exponent_of (of_int k) - 52) (- 1074)"
  have "\<bar>real_of_int k\<bar> < 2 ^ 53" using assms by (metis of_int_abs of_int_less_numeral_power_cancel_iff)
  then have q: "q \<le> 0" unfolding q_def by (rule ulp_exponent_le0)
  note sc = scale_of_int[OF q, of k]
  have r: "of_int (round_half_even (of_int k / 2 powi q)) * 2 powi q = (of_int k :: real)"
    by (simp only: sc round_half_even_of_int)
  have "\<bar>real_of_int k\<bar> < 2 ^ 1024"
  proof -
    have "(2::real) ^ 53 \<le> 2 ^ 1024" by (intro power_increasing) simp_all
    with \<open>\<bar>real_of_int k\<bar> < 2 ^ 53\<close> show ?thesis by linarith
  qed
  then have "\<not> real_of_int k \<ge> 2 powi 1024" "\<not> real_of_int k \<le> - (2 powi 1024)"
    unfolding two_powi_1024 by linarith+
  then show ?thesis
    unfolding round_double_def Let_def q_def[symmetric] r by (simp only: if_False)
qed

lemma double_of_int_exact: "\<bar>k\<bar> < 2 ^ 53 \<Longrightarrow> double_of_int k = Finite (of_int k)"
  by (simp only: double_of_int_def round_double_of_int)


text \<open>
  The ceiling of the rounded quotient of two counts below \<open>2^53\<close> is the ceiling of the
  exact quotient.
\<close>

lemma ceil_round_double_quotient:
  fixes a b :: int
  assumes "0 \<le> a" "a < 2 ^ 53" "0 < b" "b < 2 ^ 53"
  shows "\<exists>r. round_double (of_int a / of_int b) = Finite r
            \<and> \<lceil>r\<rceil> = \<lceil>(of_int a :: real) / of_int b\<rceil> \<and> 0 \<le> r"
proof (cases "a = 0")
  case True
  have "round_double (of_int 0) = Finite (of_int 0)" by (rule round_double_of_int) simp
  with True show ?thesis by simp
next
  case False
  with assms have apos: "0 < a" by simp
  define x where "x = (of_int a :: real) / of_int b"
  define k where "k = \<lceil>x\<rceil>"
  define q where "q = max (exponent_of x - 52) (- 1074)"
  define m where "m = round_half_even (x / 2 powi q)"
  have xpos: "0 < x" using apos assms(3) by (simp add: x_def)
  have ra: "real_of_int a < 2 ^ 53" using assms(2) by (metis of_int_less_numeral_power_cancel_iff)
  have rb: "1 \<le> real_of_int b" using assms(3) by simp
  have xa: "x \<le> of_int a" 
  proof -
    have "real_of_int a / real_of_int b \<le> real_of_int a / 1"
      using rb apos by (intro divide_left_mono) simp_all
    then show ?thesis by (simp add: x_def)
  qed
  have xk: "x \<le> of_int k" "of_int k - 1 < x" using ceiling_correct[of x] by (simp_all add: k_def)
  have "\<bar>x\<bar> < 2 ^ 53" using xa ra xpos by linarith
  then have q: "q \<le> 0" unfolding q_def by (rule ulp_exponent_le0)
  have p: "(0::real) < 2 powi q" by (simp add: zero_less_power_int)
  have "x / 2 powi q \<le> of_int k / 2 powi q" using xk(1) p by (simp add: divide_right_mono)
  then have "x / 2 powi q \<le> of_int (k * 2 ^ nat (- q))" by (simp only: scale_of_int(1)[OF q])
  then have "m \<le> k * 2 ^ nat (- q)" unfolding m_def by (rule round_half_even_le)
  then have "(of_int m :: real) \<le> of_int (k * 2 ^ nat (- q))" by (simp only: of_int_le_iff)
  then have "real_of_int m * 2 powi q \<le> real_of_int (k * 2 ^ nat (- q)) * 2 powi q"
    using p by (simp only: mult_le_cancel_right_pos)
  then have hi: "real_of_int m * 2 powi q \<le> real_of_int k" by (simp only: scale_of_int(2)[OF q])
  have ak: "(k - 1) * b < a"
  proof -
    have "(of_int k - 1) * real_of_int b < x * real_of_int b"
      using xk(2) assms(3) by (simp only: mult_less_cancel_right_pos of_int_0_less_iff)
    also have "\<dots> = of_int a" using assms(3) by (simp add: x_def)
    finally have "real_of_int ((k - 1) * b) < of_int a" by simp
    then show ?thesis by (simp only: of_int_less_iff)
  qed
  then have "(k - 1) * b + 1 \<le> a" by simp
  then have "real_of_int ((k - 1) * b + 1) \<le> of_int a" by (simp only: of_int_le_iff)
  then have "(of_int (k - 1) * real_of_int b + 1) / of_int b \<le> of_int a / of_int b"
    using assms(3) by (intro divide_right_mono) simp_all
  then have gap: "of_int (k - 1) + 1 / real_of_int b \<le> x"
    using assms(3) by (simp add: x_def field_simps)
  have rbb: "real_of_int b < 2 ^ 53" using assms(4) by (metis of_int_less_numeral_power_cancel_iff)
  have x0: "x \<noteq> 0" using xpos by simp
  have "- 53 \<le> exponent_of x"
  proof (rule exponent_of_ge[OF x0])
    have "1 / 2 ^ 53 < 1 / real_of_int b" using rbb assms(3) by (intro divide_strict_left_mono) simp_all
    also have "\<dots> \<le> x"
    proof -
      have "1 \<le> real_of_int a" using apos by simp
      then have "1 / real_of_int b \<le> real_of_int a / real_of_int b"
        using assms(3) by (intro divide_right_mono) simp_all
      then show ?thesis by (simp add: x_def)
    qed
    finally have "1 / 2 ^ 53 < x" .
    moreover have "(2::real) powi (- 53) = 1 / 2 ^ 53"
      by (simp only: power_int_minus_divide power_int_numeral)
    ultimately show "2 powi (- 53) \<le> \<bar>x\<bar>" using xpos by linarith
  qed
  then have qe: "q = exponent_of x - 52" by (simp add: q_def)
  have small: "2 powi q < 2 / real_of_int b"
  proof -
    from exponent_of_bounds[OF x0] xpos have "2 powi (exponent_of x) \<le> x" by simp
    then have "2 powi (exponent_of x) * real_of_int b \<le> x * real_of_int b"
      using assms(3) by (simp only: mult_le_cancel_right_pos of_int_0_less_iff)
    also have "\<dots> = of_int a" using assms(3) by (simp add: x_def)
    also have "\<dots> < 2 ^ 53" by (rule ra)
    finally have "2 powi (exponent_of x) * real_of_int b < 2 ^ 53" .
    moreover have "(2::real) powi (exponent_of x) = 2 powi q * 2 ^ 52"
    proof -
      have "(2::real) powi (q + 52) = 2 powi q * 2 powi 52" by (rule power_int_add) simp
      moreover have "(2::real) powi 52 = 2 ^ 52" by (simp only: power_int_numeral)
      ultimately show ?thesis by (simp add: qe)
    qed
    ultimately have "2 powi q * 2 ^ 52 * real_of_int b < 2 ^ 53" by simp
    then have "2 powi q * real_of_int b < 2" by (simp add: mult.commute)
    then show ?thesis using assms(3) by (simp add: field_simps)
  qed
  have "of_int (k - 1) / 2 powi q + 1 / 2 < x / 2 powi q"
  proof -
    have "1 / 2 < (1 / real_of_int b) / 2 powi q" using small p assms(3) by (simp add: field_simps)
    moreover have "(of_int (k - 1) + 1 / real_of_int b) / 2 powi q \<le> x / 2 powi q"
      using gap p by (simp only: divide_right_mono less_imp_le)
    ultimately show ?thesis by (simp add: add_divide_distrib)
  qed
  then have "of_int ((k - 1) * 2 ^ nat (- q)) + 1 / 2 < x / 2 powi q"
    by (simp only: scale_of_int(1)[OF q])
  then have "(k - 1) * 2 ^ nat (- q) + 1 \<le> m" unfolding m_def by (rule round_half_even_gt)
  then have "(of_int ((k - 1) * 2 ^ nat (- q) + 1) :: real) \<le> of_int m" by (simp only: of_int_le_iff)
  then have "real_of_int ((k - 1) * 2 ^ nat (- q) + 1) * 2 powi q \<le> real_of_int m * 2 powi q"
    using p by (simp only: mult_le_cancel_right_pos)
  moreover have "real_of_int ((k - 1) * 2 ^ nat (- q) + 1) * 2 powi q
                 = real_of_int ((k - 1) * 2 ^ nat (- q)) * 2 powi q + 2 powi q"
    by (simp add: algebra_simps)
  ultimately have "real_of_int (k - 1) + 2 powi q \<le> real_of_int m * 2 powi q"
    by (simp only: scale_of_int(2)[OF q])
  with p have lo: "real_of_int k - 1 < real_of_int m * 2 powi q" by linarith
  have kle: "real_of_int k < 2 ^ 53 + 1" using xk(2) xa ra by linarith
  have "(2::real) ^ 53 + 1 \<le> 2 ^ 1024"
  proof -
    have "(2::real) ^ 54 \<le> 2 ^ 1024" by (intro power_increasing) simp_all
    then show ?thesis by simp
  qed
  with hi kle have "real_of_int m * 2 powi q < (2::real) ^ 1024" by linarith
  moreover have k1: "1 \<le> k" using xpos by (simp add: k_def)
  then have "0 \<le> real_of_int k - 1" by simp
  ultimately have "\<not> real_of_int m * 2 powi q \<ge> (2::real) powi 1024"
    "\<not> real_of_int m * 2 powi q \<le> - ((2::real) powi 1024)"
    unfolding two_powi_1024 using lo by linarith+
  then have rd: "round_double x = Finite (of_int m * 2 powi q)"
    unfolding round_double_def Let_def q_def[symmetric] m_def[symmetric] by (simp only: if_False)
  have "\<lceil>real_of_int m * 2 powi q\<rceil> = k" using lo hi by (intro ceiling_unique) simp_all
  moreover have "0 \<le> real_of_int m * 2 powi q" using lo \<open>0 \<le> real_of_int k - 1\<close> by linarith
  ultimately show ?thesis using rd by (simp add: x_def k_def)
qed

text \<open>
  Likewise the floor of the rounded quotient of two counts below \<open>2^53\<close> is the floor of the
  exact quotient.
\<close>

lemma round_half_even_lt: "y < of_int n - 1 / 2 \<Longrightarrow> round_half_even y \<le> n - 1"
  unfolding round_half_even_def by (auto split: if_splits) linarith+

lemma floor_round_double_quotient:
  fixes a b :: int
  assumes "0 \<le> a" "a < 2 ^ 53" "0 < b" "b < 2 ^ 53"
  shows "\<exists>r. round_double (of_int a / of_int b) = Finite r
            \<and> \<lfloor>r\<rfloor> = \<lfloor>(of_int a :: real) / of_int b\<rfloor>"
proof (cases "a = 0")
  case True
  have "round_double (of_int 0) = Finite (of_int 0)" by (rule round_double_of_int) simp
  with True show ?thesis by simp
next
  case False
  with assms have apos: "0 < a" by simp
  define x where "x = (of_int a :: real) / of_int b"
  define k where "k = \<lfloor>x\<rfloor>"
  define q where "q = max (exponent_of x - 52) (- 1074)"
  define m where "m = round_half_even (x / 2 powi q)"
  have xpos: "0 < x" using apos assms(3) by (simp add: x_def)
  have ra: "real_of_int a < 2 ^ 53" using assms(2) by (metis of_int_less_numeral_power_cancel_iff)
  have rb: "1 \<le> real_of_int b" using assms(3) by simp
  have xa: "x \<le> of_int a"
  proof -
    have "real_of_int a / real_of_int b \<le> real_of_int a / 1"
      using rb apos by (intro divide_left_mono) simp_all
    then show ?thesis by (simp add: x_def)
  qed
  have xk: "of_int k \<le> x" "x < of_int k + 1" using floor_correct[of x] by (simp_all add: k_def)
  have k0: "0 \<le> k" using xpos by (simp add: k_def)
  have "\<bar>x\<bar> < 2 ^ 53" using xa ra xpos by linarith
  then have q: "q \<le> 0" unfolding q_def by (rule ulp_exponent_le0)
  have p: "(0::real) < 2 powi q" by (simp add: zero_less_power_int)
  have "of_int k / 2 powi q \<le> x / 2 powi q" using xk(1) p by (simp add: divide_right_mono)
  then have "of_int (k * 2 ^ nat (- q)) \<le> x / 2 powi q" by (simp only: scale_of_int(1)[OF q])
  then have "k * 2 ^ nat (- q) \<le> m" unfolding m_def by (rule round_half_even_ge)
  then have "(of_int (k * 2 ^ nat (- q)) :: real) \<le> of_int m" by (simp only: of_int_le_iff)
  then have "real_of_int (k * 2 ^ nat (- q)) * 2 powi q \<le> real_of_int m * 2 powi q"
    using p by (simp only: mult_le_cancel_right_pos)
  then have lo: "real_of_int k \<le> real_of_int m * 2 powi q" by (simp only: scale_of_int(2)[OF q])
  have ak: "a < (k + 1) * b"
  proof -
    have "x * real_of_int b < (of_int k + 1) * real_of_int b"
      using xk(2) assms(3) by (simp only: mult_less_cancel_right_pos of_int_0_less_iff)
    moreover have "x * real_of_int b = of_int a" using assms(3) by (simp add: x_def)
    ultimately have "real_of_int a < of_int ((k + 1) * b)" by simp
    then show ?thesis by (simp only: of_int_less_iff)
  qed
  then have "a \<le> (k + 1) * b - 1" by simp
  then have "real_of_int a \<le> of_int ((k + 1) * b - 1)" by (simp only: of_int_le_iff)
  then have "of_int a / of_int b \<le> (of_int (k + 1) * real_of_int b - 1) / of_int b"
    using assms(3) by (intro divide_right_mono) simp_all
  then have gap: "x \<le> of_int (k + 1) - 1 / real_of_int b"
    using assms(3) by (simp add: x_def field_simps)
  have rbb: "real_of_int b < 2 ^ 53" using assms(4) by (metis of_int_less_numeral_power_cancel_iff)
  have x0: "x \<noteq> 0" using xpos by simp
  have "- 53 \<le> exponent_of x"
  proof (rule exponent_of_ge[OF x0])
    have "1 / 2 ^ 53 < 1 / real_of_int b" using rbb assms(3) by (intro divide_strict_left_mono) simp_all
    also have "\<dots> \<le> x"
    proof -
      have "1 \<le> real_of_int a" using apos by simp
      then have "1 / real_of_int b \<le> real_of_int a / real_of_int b"
        using assms(3) by (intro divide_right_mono) simp_all
      then show ?thesis by (simp add: x_def)
    qed
    finally have "1 / 2 ^ 53 < x" .
    moreover have "(2::real) powi (- 53) = 1 / 2 ^ 53"
      by (simp only: power_int_minus_divide power_int_numeral)
    ultimately show "2 powi (- 53) \<le> \<bar>x\<bar>" using xpos by linarith
  qed
  then have qe: "q = exponent_of x - 52" by (simp add: q_def)
  have small: "2 powi q < 2 / real_of_int b"
  proof -
    from exponent_of_bounds[OF x0] xpos have "2 powi (exponent_of x) \<le> x" by simp
    then have "2 powi (exponent_of x) * real_of_int b \<le> x * real_of_int b"
      using assms(3) by (simp only: mult_le_cancel_right_pos of_int_0_less_iff)
    also have "\<dots> = of_int a" using assms(3) by (simp add: x_def)
    also have "\<dots> < 2 ^ 53" by (rule ra)
    finally have "2 powi (exponent_of x) * real_of_int b < 2 ^ 53" .
    moreover have "(2::real) powi (exponent_of x) = 2 powi q * 2 ^ 52"
    proof -
      have "(2::real) powi (q + 52) = 2 powi q * 2 powi 52" by (rule power_int_add) simp
      moreover have "(2::real) powi 52 = 2 ^ 52" by (simp only: power_int_numeral)
      ultimately show ?thesis by (simp add: qe)
    qed
    ultimately have "2 powi q * 2 ^ 52 * real_of_int b < 2 ^ 53" by simp
    then have "2 powi q * real_of_int b < 2" by (simp add: mult.commute)
    then show ?thesis using assms(3) by (simp add: field_simps)
  qed
  have "x / 2 powi q < of_int (k + 1) / 2 powi q - 1 / 2"
  proof -
    have "1 / 2 < (1 / real_of_int b) / 2 powi q" using small p assms(3) by (simp add: field_simps)
    moreover have "x / 2 powi q \<le> (of_int (k + 1) - 1 / real_of_int b) / 2 powi q"
      using gap p by (simp only: divide_right_mono less_imp_le)
    ultimately show ?thesis by (simp add: diff_divide_distrib)
  qed
  then have "x / 2 powi q < of_int ((k + 1) * 2 ^ nat (- q)) - 1 / 2"
    by (simp only: scale_of_int(1)[OF q])
  then have "m \<le> (k + 1) * 2 ^ nat (- q) - 1" unfolding m_def by (rule round_half_even_lt)
  then have "(of_int m :: real) \<le> of_int ((k + 1) * 2 ^ nat (- q) - 1)" by (simp only: of_int_le_iff)
  then have "real_of_int m * 2 powi q \<le> real_of_int ((k + 1) * 2 ^ nat (- q) - 1) * 2 powi q"
    using p by (simp only: mult_le_cancel_right_pos)
  moreover have "real_of_int ((k + 1) * 2 ^ nat (- q) - 1) * 2 powi q
                 = real_of_int ((k + 1) * 2 ^ nat (- q)) * 2 powi q - 2 powi q"
    by (simp add: algebra_simps)
  ultimately have "real_of_int m * 2 powi q \<le> real_of_int (k + 1) - 2 powi q"
    by (simp only: scale_of_int(2)[OF q])
  then have "real_of_int m * 2 powi q \<le> real_of_int k + 1 - 2 powi q" by simp
  with p have hi: "real_of_int m * 2 powi q < real_of_int k + 1" by linarith
  have kle: "real_of_int k < 2 ^ 53" using xk(1) xa ra by linarith
  have "(2::real) ^ 53 + 1 \<le> 2 ^ 1024"
  proof -
    have "(2::real) ^ 54 \<le> 2 ^ 1024" by (intro power_increasing) simp_all
    then show ?thesis by simp
  qed
  with hi kle have "real_of_int m * 2 powi q < (2::real) ^ 1024" by linarith
  moreover have "0 \<le> real_of_int k" using k0 by simp
  ultimately have "\<not> real_of_int m * 2 powi q \<ge> (2::real) powi 1024"
    "\<not> real_of_int m * 2 powi q \<le> - ((2::real) powi 1024)"
    unfolding two_powi_1024 using lo by linarith+
  then have rd: "round_double x = Finite (real_of_int m * 2 powi q)"
    unfolding round_double_def Let_def q_def[symmetric] m_def[symmetric] by (simp only: if_False)
  have "\<lfloor>real_of_int m * 2 powi q\<rfloor> = k" using lo hi by (intro floor_unique) simp_all
  then show ?thesis using rd by (simp add: x_def k_def)
qed

text \<open>
  The number of chunks that \<^verbatim>\<open>ceil\<close> of the \<^verbatim>\<open>double\<close> quotient gives, converted
  to \<^verbatim>\<open>int\<close>: for counts below \<open>2^53\<close> it is the ceiling of the exact quotient, when
  that is an \<^verbatim>\<open>int\<close>.
\<close>

lemma int_of_double_ceil_quotient:
  fixes a b :: int
  assumes "0 \<le> a" "a < 2 ^ 53" "0 < b" "b < 2 ^ 53"
    and "\<lceil>(of_int a :: real) / of_int b\<rceil> \<le> 2147483647"
  shows "int_of_double (double_ceil (double_div (double_of_int a) (double_of_int b)))
         = Some \<lceil>(of_int a :: real) / of_int b\<rceil>"
proof -
  have a: "double_of_int a = Finite (of_int a)" using assms(1,2) by (intro double_of_int_exact) simp
  have b: "double_of_int b = Finite (of_int b)" using assms(3,4) by (intro double_of_int_exact) simp
  from ceil_round_double_quotient[OF assms(1-4)] obtain r where
    r: "round_double (of_int a / of_int b) = Finite r"
       "\<lceil>r\<rceil> = \<lceil>(of_int a :: real) / of_int b\<rceil>" "0 \<le> r" by blast
  have d: "double_div (double_of_int a) (double_of_int b) = Finite r"
    using assms(3) r(1) by (simp add: a b)
  have "0 \<le> \<lceil>r\<rceil>" using r(3) by simp
  then show ?thesis using assms(5) by (simp add: d r(2)[symmetric])
qed

section \<open>Facts about the sort model\<close>

lemma std_sort_Cons: "std_sort lt (x # xs) = insert_by lt x (std_sort lt xs)"
  by (simp add: std_sort_def)

lemma std_sort_Nil: "std_sort lt [] = []"
  by (simp add: std_sort_def)

lemma length_insert_by: "length (insert_by lt x xs) = Suc (length xs)"
  by (induction xs) simp_all

lemma set_insert_by: "set (insert_by lt x xs) = insert x (set xs)"
  by (induction xs) auto

lemma distinct_map_insert_by:
  "distinct (map f (insert_by lt x xs)) = (f x \<notin> f ` set xs \<and> distinct (map f xs))"
  by (induction xs) (auto simp: set_insert_by)

lemma length_std_sort: "length (std_sort lt xs) = length xs"
  by (induction xs) (simp_all add: std_sort_Nil std_sort_Cons length_insert_by)

lemma set_std_sort: "set (std_sort lt xs) = set xs"
  by (induction xs) (simp_all add: std_sort_Nil std_sort_Cons set_insert_by)

lemma distinct_map_std_sort: "distinct (map f (std_sort lt xs)) = distinct (map f xs)"
  by (induction xs) (simp_all add: std_sort_Nil std_sort_Cons distinct_map_insert_by set_std_sort)

lemma sorted_insert_by_key:
  fixes k :: "'a \<Rightarrow> nat"
  shows "sorted_wrt (\<lambda>a b. k a \<le> k b) xs \<Longrightarrow>
         sorted_wrt (\<lambda>a b. k a \<le> k b) (insert_by (\<lambda>a b. k a < k b) x xs)"
  by (induction xs) (auto simp: set_insert_by)

lemma sorted_std_sort_key:
  fixes k :: "'a \<Rightarrow> nat"
  shows "sorted_wrt (\<lambda>a b. k a \<le> k b) (std_sort (\<lambda>a b. k a < k b) xs)"
  by (induction xs) (simp_all add: std_sort_Nil std_sort_Cons sorted_insert_by_key)


section \<open>The merge rule of the cross-domain linker\<close>

text \<open>On a well-formed chain the walk ends and relabels exactly the particles of the chain.\<close>

lemma relabel_chain_walks:
  "is_chain Next ss chain \<Longrightarrow>
   relabel_chain Part Next f oldlen ss st =
     Some (st\<lparr>pfof := (\<lambda>id. if id \<in> (\<lambda>x. GetID (Part x)) ` set chain then fd_iGroup f else pfof st id),
              mpi_foftask := (\<lambda>id. if id \<in> (\<lambda>x. GetID (Part x)) ` set chain then fd_iGroupTask f
                                   else mpi_foftask st id),
              Len := (\<lambda>x. if x \<in> set chain then fd_iLen f + oldlen else Len st x)\<rparr>)"
proof (induction Next ss chain arbitrary: st rule: is_chain.induct)
  case (1 Next ss)
  then show ?case by simp
next
  case (2 Next ss x)
  then show ?case
    by (subst relabel_chain.simps) (auto simp: relabel_one_def fun_eq_iff)
next
  case (3 Next ss x y ys)
  then have c: "is_chain Next (Next ss) (y # ys)" and n: "Next ss \<ge> 0" and x: "x = ss" by simp_all
  show ?case
    by (subst relabel_chain.simps) (auto simp: "3.IH"[OF c] n x relabel_one_def fun_eq_iff)
qed

text \<open>
  The loops of the routine apply the step to the candidates in turn: candidate lists compose, and
  for one import with one candidate the routine is the step, started with the link counter reset.
\<close>

lemma link_candidates_append:
  "link_candidates Part Head Next mpi_maxgid pget (ks @ ks') fs
   = (case link_candidates Part Head Next mpi_maxgid pget ks fs of
        None \<Rightarrow> None
      | Some fs1 \<Rightarrow> link_candidates Part Head Next mpi_maxgid pget ks' fs1)"
  by (induction ks arbitrary: fs) (simp_all split: option.splits)

lemma MPILinkAcross_single:
  assumes "SearchBallPosTagged pget = [k]"
  shows "MPILinkAcross Part Head Next mpi_maxgid SearchBallPosTagged [pget] [f] st
         = (case link_candidate Part Head Next mpi_maxgid pget k (f, st\<lparr>links := 0\<rparr>) of
              None \<Rightarrow> None
            | Some (f1, st1) \<Rightarrow> Some ([f1], st1))"
  using assms by (simp add: MPILinkAcross_def split: option.splits)

text \<open>
  Claim C1, as the code has it. For an imported record whose group id is nonzero and a local
  candidate \<open>k\<close> whose group head is already grouped, \<^verbatim>\<open>MPILinkAcross\<close> relabels the
  whole local chain (walked from \<^verbatim>\<open>Head[k]\<close> along \<^verbatim>\<open>Next\<close>) to the imported group id
  and group task, sets the length of every particle of the chain to the imported length plus
  \<^verbatim>\<open>Len[k]\<close>, adds \<^verbatim>\<open>Len[k]\<close> to the imported length and counts one link, exactly when
  the local group id exceeds the imported one; otherwise nothing changes.
\<close>

theorem MPILinkAcross_grouped_relabel:
  assumes "fd_iGroup f \<noteq> 0" and "pfof st (GetID (Part (Head k))) > 0"
    and "is_chain Next (Head k) chain"
  shows "link_candidate Part Head Next mpi_maxgid pget k (f, st) =
     (if pfof st (GetID (Part (Head k))) > fd_iGroup f
      then Some (f\<lparr>fd_iLen := fd_iLen f + Len st k\<rparr>,
                 st\<lparr>pfof := (\<lambda>id. if id \<in> (\<lambda>x. GetID (Part x)) ` set chain then fd_iGroup f
                                  else pfof st id),
                    mpi_foftask := (\<lambda>id. if id \<in> (\<lambda>x. GetID (Part x)) ` set chain
                                         then fd_iGroupTask f else mpi_foftask st id),
                    Len := (\<lambda>x. if x \<in> set chain then fd_iLen f + Len st k else Len st x),
                    links := links st + 1\<rparr>)
      else Some (f, st))"
  using assms by (simp add: link_candidate_def relabel_chain_walks[OF assms(3)])

text \<open>The theorem on the example domain: the chain of group 3 meets an import of group 2.\<close>

theorem MPILinkAcross_grouped_relabel_witness:
  "fd_iGroup (ex_import 2) \<noteq> 0 \<and> pfof (ex_state 3) (GetID (ex_Part (ex_Head 1))) > 0
   \<and> is_chain ex_Next (ex_Head 1) [0, 1]
   \<and> link_candidate ex_Part ex_Head ex_Next 100 (ex_pget 5) 1 (ex_import 2, ex_state 3)
       = Some ((ex_import 2)\<lparr>fd_iLen := 6\<rparr>,
               (ex_state 3)\<lparr>pfof := (\<lambda>_. 0)(0 := 2, 1 := 2), mpi_foftask := (\<lambda>_. 0)(0 := 1, 1 := 1),
                            Len := (\<lambda>_. 1)(0 := 6, 1 := 6), links := 1\<rparr>)"
  using MPILinkAcross_grouped_relabel[of "ex_import 2" "ex_state 3" ex_Part ex_Head 1 ex_Next "[0, 1]" 100 "ex_pget 5"]
  by (simp add: ex_import_def ex_state_def ex_Part_def ex_Head_def ex_Next_def fun_eq_iff)

text \<open>
  Claim C1 as it is stated has the comparison the other way round (relabel exactly when the
  imported id exceeds the local one). On the example domain an import of group 5 leaves the
  chain of group 3 as it is, and an import of group 2 relabels it.
\<close>

theorem MPILinkAcross_larger_foreign_id_counterexample:
  "fd_iGroup (ex_import 5) > pfof (ex_state 3) (GetID (ex_Part (ex_Head 1)))
   \<and> link_candidate ex_Part ex_Head ex_Next 100 (ex_pget 5) 1 (ex_import 5, ex_state 3)
       = Some (ex_import 5, ex_state 3)
   \<and> fd_iGroup (ex_import 2) < pfof (ex_state 3) (GetID (ex_Part (ex_Head 1)))
   \<and> link_candidate ex_Part ex_Head ex_Next 100 (ex_pget 5) 1 (ex_import 2, ex_state 3)
       \<noteq> Some (ex_import 2, ex_state 3)"
  by (simp add: link_candidate_def relabel_chain.simps relabel_one_def
      ex_import_def ex_state_def ex_Part_def ex_Head_def ex_Next_def fun_eq_iff)

text \<open>
  Claim C2, as the code has it. For an imported record with group id 0 and a local candidate
  \<open>k\<close> whose group head is ungrouped: when the PID of the candidate's head is greater than
  the PID of the imported particle, the candidate gets the new group id
  \<^verbatim>\<open>mpi_maxgid + mpi_gidoffset\<close>, the offset grows by one, the candidate's length becomes
  1, the group task of the imported record becomes the owner and one link is counted;
  otherwise nothing changes.
\<close>

theorem MPILinkAcross_ungrouped_new_group:
  assumes "fd_iGroup f = 0" and "pfof st (GetID (Part (Head k))) = 0"
  shows "link_candidate Part Head Next mpi_maxgid pget k (f, st) =
     (if GetPID (Part (Head k)) > GetPID pget
      then Some (f, st\<lparr>pfof := (pfof st)(GetID (Part k) := mpi_maxgid + mpi_gidoffset st),
                      mpi_gidoffset := mpi_gidoffset st + 1,
                      Len := (Len st)(k := 1),
                      mpi_foftask := (mpi_foftask st)(GetID (Part k) := fd_iGroupTask f),
                      links := links st + 1\<rparr>)
      else Some (f, st))"
  using assms by (simp add: link_candidate_def)

text \<open>The theorem on the example domain: local PID 12 against imported PID 5.\<close>

theorem MPILinkAcross_ungrouped_new_group_witness:
  "fd_iGroup (ex_import 0) = 0 \<and> pfof (ex_state 3) (GetID (ex_Part (ex_Head 2))) = 0
   \<and> GetPID (ex_Part (ex_Head 2)) > GetPID (ex_pget 5)
   \<and> link_candidate ex_Part ex_Head ex_Next 100 (ex_pget 5) 2 (ex_import 0, ex_state 3)
       = Some (ex_import 0,
               (ex_state 3)\<lparr>pfof := (pfof (ex_state 3))(2 := 100), mpi_gidoffset := 1,
                            Len := (Len (ex_state 3))(2 := 1),
                            mpi_foftask := (mpi_foftask (ex_state 3))(2 := 1), links := 1\<rparr>)"
  using MPILinkAcross_ungrouped_new_group[of "ex_import 0" "ex_state 3" ex_Part ex_Head 2 ex_Next 100 "ex_pget 5"]
  by (simp add: ex_import_def ex_state_def ex_Part_def ex_Head_def ex_pget_def)

text \<open>
  Claim C2 as it is stated has the comparison the other way round (nothing changes when the
  local head has the greater PID, a new group when it has the lower one). On the example
  domain the local PID 12 against the imported PID 5 creates the group, and against the
  imported PID 50 nothing changes.
\<close>

theorem MPILinkAcross_lower_local_pid_counterexample:
  "GetPID (ex_Part (ex_Head 2)) > GetPID (ex_pget 5)
   \<and> link_candidate ex_Part ex_Head ex_Next 100 (ex_pget 5) 2 (ex_import 0, ex_state 3)
       \<noteq> Some (ex_import 0, ex_state 3)
   \<and> GetPID (ex_Part (ex_Head 2)) < GetPID (ex_pget 50)
   \<and> link_candidate ex_Part ex_Head ex_Next 100 (ex_pget 50) 2 (ex_import 0, ex_state 3)
       = Some (ex_import 0, ex_state 3)"
  by (simp add: link_candidate_def ex_import_def ex_state_def ex_Part_def ex_Head_def ex_pget_def)


section \<open>The chunk schedule is complete within the range of the machine numbers\<close>

text \<open>
  While a chunk size lies between 0 and what is left to transfer, and is an \<^verbatim>\<open>int\<close>,
  the update keeps it so: no conversion changes a value.
\<close>

lemma upd_offsets:
  "sendoffset (MPIUpdateCommChunks nsend nrecv c) = sendoffset c + cursendchunksize c"
  "recvoffset (MPIUpdateCommChunks nsend nrecv c) = recvoffset c + currecvchunksize c"
  by (simp_all add: MPIUpdateCommChunks_def Let_def)

lemma upd_send:
  assumes "0 \<le> cursendchunksize c" "cursendchunksize c \<le> nsend - sendoffset c"
    and "cursendchunksize c \<le> 2147483647"
  shows "cursendchunksize (MPIUpdateCommChunks nsend nrecv c) =
     min (cursendchunksize c) (nsend - (sendoffset c + cursendchunksize c))"
proof -
  have "int_of_Int_t (min (cursendchunksize c) (nsend - (sendoffset c + cursendchunksize c)))
        = min (cursendchunksize c) (nsend - (sendoffset c + cursendchunksize c))"
    using assms by (intro int_of_Int_t_id) simp_all
  then show ?thesis by (simp add: MPIUpdateCommChunks_def Let_def)
qed

lemma upd_recv:
  assumes "0 \<le> currecvchunksize c" "currecvchunksize c \<le> nrecv - recvoffset c"
    and "currecvchunksize c \<le> 2147483647"
  shows "currecvchunksize (MPIUpdateCommChunks nsend nrecv c) =
     min (currecvchunksize c) (nrecv - (recvoffset c + currecvchunksize c))"
proof -
  have "int_of_Int_t (min (currecvchunksize c) (nrecv - (recvoffset c + currecvchunksize c)))
        = min (currecvchunksize c) (nrecv - (recvoffset c + currecvchunksize c))"
    using assms by (intro int_of_Int_t_id) simp_all
  then show ?thesis by (simp add: MPIUpdateCommChunks_def Let_def)
qed

lemma length_comm_rounds: "length (comm_rounds n nsend nrecv c) = n"
  by (induction n arbitrary: c) simp_all

lemma min_mult_step:
  fixes cs r :: int
  assumes "0 \<le> cs" "0 \<le> r"
  shows "cs + min r (int n * min cs r) = min (r + cs) (int (Suc n) * cs)"
proof (cases "cs \<le> r")
  case True
  then show ?thesis by (simp add: min_def algebra_simps)
next
  case False
  then have lt: "r < cs" by simp
  show ?thesis
  proof (cases n)
    case 0
    with assms lt show ?thesis by simp
  next
    case (Suc m)
    have a: "r \<le> int n * r" using assms Suc by (simp add: mult_le_cancel_right1)
    have b: "cs \<le> int n * cs" using assms Suc by (simp add: mult_le_cancel_right1)
    from lt a b show ?thesis by (simp add: min_def algebra_simps)
  qed
qed

lemma send_sum:
  "0 \<le> cursendchunksize c \<Longrightarrow> cursendchunksize c \<le> nsend - sendoffset c \<Longrightarrow>
   cursendchunksize c \<le> 2147483647 \<Longrightarrow>
   sum_list (map cursendchunksize (comm_rounds n nsend nrecv c))
     = min (nsend - sendoffset c) (int n * cursendchunksize c)"
proof (induction n arbitrary: c)
  case 0
  then show ?case by simp
next
  case (Suc n)
  let ?c' = "MPIUpdateCommChunks nsend nrecv c"
  note u = upd_send[OF Suc.prems, of nrecv] upd_offsets(1)[of nsend nrecv c]
  have "0 \<le> cursendchunksize ?c'" "cursendchunksize ?c' \<le> nsend - sendoffset ?c'"
    "cursendchunksize ?c' \<le> 2147483647"
    using Suc.prems by (simp_all add: u)
  from Suc.IH[OF this]
  have "sum_list (map cursendchunksize (comm_rounds (Suc n) nsend nrecv c))
        = cursendchunksize c + min (nsend - sendoffset c - cursendchunksize c)
            (int n * min (cursendchunksize c) (nsend - sendoffset c - cursendchunksize c))"
    by (simp add: u algebra_simps)
  also have "\<dots> = min ((nsend - sendoffset c - cursendchunksize c) + cursendchunksize c)
                      (int (Suc n) * cursendchunksize c)"
    using Suc.prems by (intro min_mult_step) simp_all
  finally show ?case by simp
qed

lemma recv_sum:
  "0 \<le> currecvchunksize c \<Longrightarrow> currecvchunksize c \<le> nrecv - recvoffset c \<Longrightarrow>
   currecvchunksize c \<le> 2147483647 \<Longrightarrow>
   sum_list (map currecvchunksize (comm_rounds n nsend nrecv c))
     = min (nrecv - recvoffset c) (int n * currecvchunksize c)"
proof (induction n arbitrary: c)
  case 0
  then show ?case by simp
next
  case (Suc n)
  let ?c' = "MPIUpdateCommChunks nsend nrecv c"
  note u = upd_recv[OF Suc.prems, of nsend] upd_offsets(2)[of nsend nrecv c]
  have "0 \<le> currecvchunksize ?c'" "currecvchunksize ?c' \<le> nrecv - recvoffset ?c'"
    "currecvchunksize ?c' \<le> 2147483647"
    using Suc.prems by (simp_all add: u)
  from Suc.IH[OF this]
  have "sum_list (map currecvchunksize (comm_rounds (Suc n) nsend nrecv c))
        = currecvchunksize c + min (nrecv - recvoffset c - currecvchunksize c)
            (int n * min (currecvchunksize c) (nrecv - recvoffset c - currecvchunksize c))"
    by (simp add: u algebra_simps)
  also have "\<dots> = min ((nrecv - recvoffset c - currecvchunksize c) + currecvchunksize c)
                      (int (Suc n) * currecvchunksize c)"
    using Suc.prems by (intro min_mult_step) simp_all
  finally show ?case by simp
qed

lemma send_sizes_bounded:
  "0 \<le> cursendchunksize c \<Longrightarrow> cursendchunksize c \<le> nsend - sendoffset c \<Longrightarrow>
   cursendchunksize c \<le> 2147483647 \<Longrightarrow>
   x \<in> set (comm_rounds n nsend nrecv c) \<Longrightarrow>
   0 \<le> cursendchunksize x \<and> cursendchunksize x \<le> cursendchunksize c"
proof (induction n arbitrary: c)
  case 0
  then show ?case by simp
next
  case (Suc n)
  let ?c' = "MPIUpdateCommChunks nsend nrecv c"
  note u = upd_send[OF Suc.prems(1-3), of nrecv] upd_offsets(1)[of nsend nrecv c]
  have p: "0 \<le> cursendchunksize ?c'" "cursendchunksize ?c' \<le> nsend - sendoffset ?c'"
    "cursendchunksize ?c' \<le> 2147483647"
    using Suc.prems by (simp_all add: u)
  from Suc.prems(4) consider "x = c" | "x \<in> set (comm_rounds n nsend nrecv ?c')" by auto
  then show ?case
  proof cases
    case 1
    with Suc.prems show ?thesis by simp
  next
    case 2
    from Suc.IH[OF p 2] show ?thesis by (simp add: u)
  qed
qed

lemma recv_sizes_bounded:
  "0 \<le> currecvchunksize c \<Longrightarrow> currecvchunksize c \<le> nrecv - recvoffset c \<Longrightarrow>
   currecvchunksize c \<le> 2147483647 \<Longrightarrow>
   x \<in> set (comm_rounds n nsend nrecv c) \<Longrightarrow>
   0 \<le> currecvchunksize x \<and> currecvchunksize x \<le> currecvchunksize c"
proof (induction n arbitrary: c)
  case 0
  then show ?case by simp
next
  case (Suc n)
  let ?c' = "MPIUpdateCommChunks nsend nrecv c"
  note u = upd_recv[OF Suc.prems(1-3), of nsend] upd_offsets(2)[of nsend nrecv c]
  have p: "0 \<le> currecvchunksize ?c'" "currecvchunksize ?c' \<le> nrecv - recvoffset ?c'"
    "currecvchunksize ?c' \<le> 2147483647"
    using Suc.prems by (simp_all add: u)
  from Suc.prems(4) consider "x = c" | "x \<in> set (comm_rounds n nsend nrecv ?c')" by auto
  then show ?case
  proof cases
    case 1
    with Suc.prems show ?thesis by simp
  next
    case 2
    from Suc.IH[OF p 2] show ?thesis by (simp add: u)
  qed
qed

lemma offsets_are_prefix_sums:
  "t < n \<Longrightarrow>
   sendoffset (comm_rounds n nsend nrecv c ! t)
     = sendoffset c + sum_list (map cursendchunksize (take t (comm_rounds n nsend nrecv c))) \<and>
   recvoffset (comm_rounds n nsend nrecv c ! t)
     = recvoffset c + sum_list (map currecvchunksize (take t (comm_rounds n nsend nrecv c)))"
proof (induction n arbitrary: c t)
  case 0
  then show ?case by simp
next
  case (Suc n)
  show ?case
  proof (cases t)
    case 0
    then show ?thesis by simp
  next
    case (Suc u)
    with Suc.prems have "u < n" by simp
    from Suc.IH[OF this, of "MPIUpdateCommChunks nsend nrecv c"] Suc show ?thesis
      by (simp add: upd_offsets)
  qed
qed

lemma ceil_quotient_covers:
  fixes a b :: int
  assumes "0 < b"
  shows "a \<le> \<lceil>(of_int a :: real) / of_int b\<rceil> * b"
proof -
  have c: "\<lceil>(of_int a :: real) / of_int b\<rceil> = - (- a div b)"
    by (rule ceiling_divide_eq_div)
  have "(- a div b) * b + (- a) mod b = - a" by simp
  moreover have "0 \<le> (- a) mod b" using assms by simp
  ultimately have "(- a div b) * b \<le> - a" by linarith
  then show ?thesis unfolding c by (simp add: algebra_simps)
qed

lemma ceil_quotient_pos:
  fixes a b :: int
  assumes "0 < b" "0 < a"
  shows "1 \<le> \<lceil>(of_int a :: real) / of_int b\<rceil>"
proof -
  have "0 < (of_int a :: real) / of_int b" using assms by simp
  then have "0 < \<lceil>(of_int a :: real) / of_int b\<rceil>" by (simp only: zero_less_ceiling)
  then show ?thesis by simp
qed

lemma ceil_quotient_small:
  fixes a b :: int
  assumes "0 < a" "a < b"
  shows "\<lceil>(of_int a :: real) / of_int b\<rceil> = 1"
proof -
  have "0 < (of_int a :: real) / of_int b" "(of_int a :: real) / of_int b \<le> 1"
    using assms by simp_all
  then show ?thesis by (simp add: ceiling_unique)
qed


text \<open>
  Claim C3, within the range of the machine numbers. For all counts \<open>nsend \<ge> 0\<close>,
  \<open>nrecv \<ge> 0\<close> that are not both zero and below \<open>2^53\<close>, and every \<open>maxchunksize > 0\<close>
  that is an \<^verbatim>\<open>int\<close> (at most \<open>2^31 - 1\<close>) and gives round counts
  \<open>\<lceil>nsend/maxchunksize\<rceil>\<close> and \<open>\<lceil>nrecv/maxchunksize\<rceil>\<close> that are \<^verbatim>\<open>int\<close>s, the schedule
  of \<^verbatim>\<open>MPIInitialzeCommChunks\<close> followed by \<^verbatim>\<open>MPIUpdateCommChunks\<close> after each round
  is defined and has exactly \<open>max \<lceil>nsend/maxchunksize\<rceil> \<lceil>nrecv/maxchunksize\<rceil>\<close> rounds when
  both counts are nonzero and at least one round in any case; every send and receive size
  lies between 0 and \<open>maxchunksize\<close>; the send sizes add up to \<open>nsend\<close> and the receive
  sizes to \<open>nrecv\<close>; and every round starts at the offset where the previous rounds stopped,
  so nothing is lost, sent twice or cut off.
\<close>

theorem chunk_schedule_complete:
  assumes "0 \<le> nsend" "0 \<le> nrecv" "0 < nsend + nrecv" "0 < maxchunksize"
    and "maxchunksize \<le> 2147483647" "nsend < 2 ^ 53" "nrecv < 2 ^ 53"
    and "\<lceil>(of_int nsend :: real) / of_int maxchunksize\<rceil> \<le> 2147483647"
    and "\<lceil>(of_int nrecv :: real) / of_int maxchunksize\<rceil> \<le> 2147483647"
  shows "\<exists>sched. chunk_schedule nsend nrecv maxchunksize = Some sched
       \<and> (0 < nsend \<and> 0 < nrecv \<longrightarrow>
            int (length sched)
              = max \<lceil>(of_int nsend :: real) / of_int maxchunksize\<rceil>
                    \<lceil>(of_int nrecv :: real) / of_int maxchunksize\<rceil>)
       \<and> 1 \<le> length sched
       \<and> (\<forall>c \<in> set sched.
             0 \<le> cursendchunksize c \<and> cursendchunksize c \<le> maxchunksize \<and>
             0 \<le> currecvchunksize c \<and> currecvchunksize c \<le> maxchunksize)
       \<and> sum_list (map cursendchunksize sched) = nsend
       \<and> sum_list (map currecvchunksize sched) = nrecv
       \<and> (\<forall>t < length sched.
             sendoffset (sched ! t) = sum_list (map cursendchunksize (take t sched)) \<and>
             recvoffset (sched ! t) = sum_list (map currecvchunksize (take t sched)))"
proof -
  define ns where "ns = (if maxchunksize > nsend then 1 else \<lceil>(of_int nsend :: real) / of_int maxchunksize\<rceil>)"
  define nr where "nr = (if maxchunksize > nrecv then 1 else \<lceil>(of_int nrecv :: real) / of_int maxchunksize\<rceil>)"
  define cs where "cs = (if maxchunksize > nsend then nsend else maxchunksize)"
  define cr where "cr = (if maxchunksize > nrecv then nrecv else maxchunksize)"
  define c0 where "c0 = \<lparr>cursendchunksize = cs, currecvchunksize = cr, sendoffset = 0, recvoffset = 0\<rparr>"
  define N where "N = nat (max ns nr)"
  have mb: "maxchunksize < 2 ^ 53" using assms(5) by simp
  note count_s = int_of_double_ceil_quotient[OF assms(1,6,4) mb assms(8)]
  note count_r = int_of_double_ceil_quotient[OF assms(2,7,4) mb assms(9)]
  have m: "int_of_Int_t maxchunksize = maxchunksize"
    using assms(4,5) by (intro int_of_Int_t_id) simp_all
  have s: "int_of_Int_t nsend = nsend" if "maxchunksize > nsend"
    using that assms(1,5) by (intro int_of_Int_t_id) simp_all
  have r: "int_of_Int_t nrecv = nrecv" if "maxchunksize > nrecv"
    using that assms(2,5) by (intro int_of_Int_t_id) simp_all
  have init: "MPIInitialzeCommChunks nsend nrecv maxchunksize = Some (max ns nr, cs, cr, 0, 0)"
    using s r
    by (simp add: MPIInitialzeCommChunks_def Let_def count_s count_r m ns_def nr_def cs_def cr_def)
  have sched: "chunk_schedule nsend nrecv maxchunksize = Some (comm_rounds N nsend nrecv c0)"
    by (simp add: chunk_schedule_def init c0_def N_def)
  have ns1: "1 \<le> ns"
    using assms by (auto simp: ns_def intro: ceil_quotient_pos)
  have nr1: "1 \<le> nr"
    using assms by (auto simp: nr_def intro: ceil_quotient_pos)
  have N: "int N = max ns nr" using ns1 by (simp add: N_def)
  have c0s: "0 \<le> cursendchunksize c0" "cursendchunksize c0 \<le> nsend - sendoffset c0"
            "cursendchunksize c0 \<le> 2147483647" "cursendchunksize c0 \<le> maxchunksize"
    using assms by (simp_all add: c0_def cs_def)
  have c0r: "0 \<le> currecvchunksize c0" "currecvchunksize c0 \<le> nrecv - recvoffset c0"
            "currecvchunksize c0 \<le> 2147483647" "currecvchunksize c0 \<le> maxchunksize"
    using assms by (simp_all add: c0_def cr_def)
  have ns_eq: "ns = \<lceil>(of_int nsend :: real) / of_int maxchunksize\<rceil>" if "0 < nsend"
    using that assms by (simp add: ns_def ceil_quotient_small)
  have nr_eq: "nr = \<lceil>(of_int nrecv :: real) / of_int maxchunksize\<rceil>" if "0 < nrecv"
    using that assms by (simp add: nr_def ceil_quotient_small)
  have cover_s: "nsend \<le> ns * cs"
  proof (cases "maxchunksize > nsend")
    case True
    then have "ns * cs = nsend" by (simp add: ns_def cs_def)
    then show ?thesis by simp
  next
    case False
    then show ?thesis using ceil_quotient_covers[OF assms(4), of nsend] by (simp add: ns_def cs_def)
  qed
  have cover_r: "nrecv \<le> nr * cr"
  proof (cases "maxchunksize > nrecv")
    case True
    then have "nr * cr = nrecv" by (simp add: nr_def cr_def)
    then show ?thesis by simp
  next
    case False
    then show ?thesis using ceil_quotient_covers[OF assms(4), of nrecv] by (simp add: nr_def cr_def)
  qed
  have "ns * cs \<le> int N * cs" using c0s(1) N by (intro mult_right_mono) (simp_all add: c0_def)
  with cover_s have Ns: "nsend \<le> int N * cursendchunksize c0" by (simp add: c0_def)
  have "nr * cr \<le> int N * cr" using c0r(1) N by (intro mult_right_mono) (simp_all add: c0_def)
  with cover_r have Nr: "nrecv \<le> int N * currecvchunksize c0" by (simp add: c0_def)
  let ?sched = "comm_rounds N nsend nrecv c0"
  have rounds: "0 < nsend \<and> 0 < nrecv \<longrightarrow>
            int (length ?sched)
              = max \<lceil>(of_int nsend :: real) / of_int maxchunksize\<rceil>
                    \<lceil>(of_int nrecv :: real) / of_int maxchunksize\<rceil>"
    using ns_eq nr_eq N by (simp add: length_comm_rounds)
  have atleast: "1 \<le> length ?sched"
    using N ns1 by (simp add: length_comm_rounds)
  have sizes: "\<forall>c \<in> set ?sched.
             0 \<le> cursendchunksize c \<and> cursendchunksize c \<le> maxchunksize \<and>
             0 \<le> currecvchunksize c \<and> currecvchunksize c \<le> maxchunksize"
  proof
    fix c assume m: "c \<in> set ?sched"
    from send_sizes_bounded[OF c0s(1,2,3) m] recv_sizes_bounded[OF c0r(1,2,3) m] c0s(4) c0r(4)
    show "0 \<le> cursendchunksize c \<and> cursendchunksize c \<le> maxchunksize \<and>
             0 \<le> currecvchunksize c \<and> currecvchunksize c \<le> maxchunksize"
      by linarith
  qed
  have ssum: "sum_list (map cursendchunksize ?sched) = nsend"
    using send_sum[OF c0s(1,2,3), of N nrecv] Ns by (simp add: c0_def)
  have rsum: "sum_list (map currecvchunksize ?sched) = nrecv"
    using recv_sum[OF c0r(1,2,3), of N nsend] Nr by (simp add: c0_def)
  have offs: "\<forall>t < length ?sched.
             sendoffset (?sched ! t) = sum_list (map cursendchunksize (take t ?sched)) \<and>
             recvoffset (?sched ! t) = sum_list (map currecvchunksize (take t ?sched))"
    using offsets_are_prefix_sums[of _ N nsend nrecv c0]
    by (simp add: length_comm_rounds c0_def)
  from sched rounds atleast sizes ssum rsum offs show ?thesis by blast
qed

text \<open>The theorem at 10 items to send and 3 to receive in chunks of at most 4: three rounds.\<close>

theorem chunk_schedule_complete_witness:
  "(0::int) \<le> 10 \<and> (0::int) \<le> 3 \<and> (0::int) < 10 + 3 \<and> (0::int) < 4
   \<and> (4::int) \<le> 2147483647 \<and> (10::int) < 2 ^ 53 \<and> (3::int) < 2 ^ 53
   \<and> \<lceil>(of_int 10 :: real) / of_int 4\<rceil> \<le> 2147483647
   \<and> \<lceil>(of_int 3 :: real) / of_int 4\<rceil> \<le> 2147483647
   \<and> (\<exists>sched. chunk_schedule 10 3 4 = Some sched
        \<and> length sched = 3
        \<and> sum_list (map cursendchunksize sched) = 10
        \<and> sum_list (map currecvchunksize sched) = 3)"
proof -
  have h: "(0::int) \<le> 10" "(0::int) \<le> 3" "(0::int) < 10 + 3" "(0::int) < 4"
    "(4::int) \<le> 2147483647" "(10::int) < 2 ^ 53" "(3::int) < 2 ^ 53"
    "\<lceil>(of_int 10 :: real) / of_int 4\<rceil> \<le> 2147483647"
    "\<lceil>(of_int 3 :: real) / of_int 4\<rceil> \<le> 2147483647"
    by simp_all
  from chunk_schedule_complete[OF h] obtain sched where
    s: "chunk_schedule 10 3 4 = Some sched"
       "(0::int) < 10 \<and> (0::int) < 3 \<longrightarrow>
          int (length sched) = max \<lceil>(of_int 10 :: real) / of_int 4\<rceil> \<lceil>(of_int 3 :: real) / of_int 4\<rceil>"
       "sum_list (map cursendchunksize sched) = 10"
       "sum_list (map currecvchunksize sched) = 3"
    by blast
  from s(2) have "length sched = 3" by simp
  with s(1,3,4) h show ?thesis by blast
qed

text \<open>
  Claim C3 as it is stated covers every \<open>maxchunksize > 0\<close>. The chunk sizes are \<^verbatim>\<open>int\<close>
  variables: with \<open>maxchunksize = 2^32\<close>, which the \<^verbatim>\<open>Int_t\<close> parameter admits, the
  conversion leaves a chunk size of 0, the 10 items to send are scheduled in one round that
  transfers nothing, and the sizes add up to 0.
\<close>

theorem chunk_schedule_wide_maxchunksize_counterexample:
  "chunk_schedule 10 0 4294967296
     = Some [\<lparr>cursendchunksize = 0, currecvchunksize = 0, sendoffset = 0, recvoffset = 0\<rparr>]
   \<and> sum_list (map cursendchunksize (the (chunk_schedule 10 0 4294967296))) \<noteq> 10"
proof -
  have m: "int_of_Int_t 4294967296 = 0" by (simp add: int_of_Int_t_def)
  have a: "double_of_int 10 = Finite 10" using double_of_int_exact[of 10] by simp
  have z: "double_of_int 0 = Finite 0" using double_of_int_exact[of 0] by simp
  have b: "double_of_int 4294967296 = Finite 4294967296"
    using double_of_int_exact[of 4294967296] by simp
  from ceil_round_double_quotient[of 10 4294967296] obtain r where
    r: "round_double (of_int 10 / of_int 4294967296) = Finite r"
       "\<lceil>r\<rceil> = \<lceil>(of_int 10 :: real) / of_int 4294967296\<rceil>" by auto
  have r1: "\<lceil>r\<rceil> = 1" using r(2) by simp
  have z0: "round_double 0 = Finite 0" using round_double_of_int[of 0] by simp
  have s: "int_of_double (double_ceil (double_div (double_of_int 10) (double_of_int 4294967296)))
           = Some 1"
    using r(1) r1 by (simp add: a b)
  have n: "int_of_double (double_ceil (double_div (double_of_int 0) (double_of_int 4294967296)))
           = Some 0"
    by (simp add: z b z0)
  have "chunk_schedule 10 0 4294967296
     = Some [\<lparr>cursendchunksize = 0, currecvchunksize = 0, sendoffset = 0, recvoffset = 0\<rparr>]"
    by (simp add: chunk_schedule_def MPIInitialzeCommChunks_def Let_def m s n)
  then show ?thesis by simp
qed

section \<open>Filtering of short runs in the group compaction\<close>

lemma reset_length: "length (fold (\<lambda>j xs. xs[j := (0::int)]) [a..<b] xs) = length xs"
  by (induction b) simp_all

lemma reset_nth:
  "j < length xs \<Longrightarrow>
   fold (\<lambda>j xs. xs[j := (0::int)]) [a..<b] xs ! j = (if a \<le> j \<and> j < b then 0 else xs ! j)"
proof (induction b)
  case 0
  then show ?case by simp
next
  case (Suc b)
  show ?case
  proof (cases "a \<le> b")
    case True
    with Suc show ?thesis by (auto simp: reset_length nth_list_update less_Suc_eq)
  next
    case False
    then show ?thesis by simp
  qed
qed

lemma close_run_start:
  "fst (close_run m i (start, ids, ng)) = (if ids ! i \<noteq> ids ! start then i else start)"
  by (simp add: close_run_def)

lemma close_run_length:
  "length (fst (snd (close_run m i (start, ids, ng)))) = length ids"
  by (simp add: close_run_def reset_length)

lemma close_run_nth:
  "j < length ids \<Longrightarrow>
   fst (snd (close_run m i (start, ids, ng))) ! j
     = (if ids ! i \<noteq> ids ! start \<and> int i - int start < m \<and> start \<le> j \<and> j < i then 0 else ids ! j)"
  by (simp add: close_run_def reset_nth)

lemma count_group_runs_prefix:
  "start \<le> i \<Longrightarrow> j < start \<Longrightarrow> j < length ids \<Longrightarrow>
   fst (count_group_runs stop m n i (start, ids, ng)) ! j = ids ! j"
proof (induction "n - i" arbitrary: i start ids ng)
  case 0
  then have "\<not> i < n" by simp
  then show ?case by (subst count_group_runs.simps) simp
next
  case (Suc k)
  then have lt: "i < n" by simp
  obtain start1 ids1 ng1 where cr: "close_run m i (start, ids, ng) = (start1, ids1, ng1)"
    by (cases "close_run m i (start, ids, ng)") auto
  have s1: "start1 = (if ids ! i \<noteq> ids ! start then i else start)"
    using close_run_start[of m i start ids ng] cr by simp
  have l1: "length ids1 = length ids"
    using close_run_length[of m i start ids ng] cr by simp
  have n1: "ids1 ! j = ids ! j"
    using close_run_nth[of j ids m i start ng] cr Suc.prems by simp
  show ?case
  proof (cases "stop (ids1 ! i)")
    case True
    with lt cr n1 show ?thesis by (subst count_group_runs.simps) (simp add: Let_def)
  next
    case False
    have k: "k = n - (i + 1)" using Suc.hyps(2) by simp
    have "fst (count_group_runs stop m n (i + 1) (start1, ids1, ng1)) ! j = ids1 ! j"
      using Suc.prems s1 l1 by (intro Suc.hyps(1)[OF k]) auto
    with False lt cr n1 show ?thesis by (subst count_group_runs.simps) (simp add: Let_def)
  qed
qed


lemma count_group_runs_closed_run:
  assumes "start \<le> i" "i \<le> e" "e < n" "n \<le> length ids" "start \<le> s" "s < e"
    and "s < i \<longrightarrow> start = s"
    and "\<forall>j. start \<le> j \<and> j < i \<longrightarrow> ids ! j = ids ! start"
    and "\<forall>j. i \<le> j \<and> j < e \<longrightarrow> ids ! j < 0"
    and "\<forall>j. s \<le> j \<and> j < e \<longrightarrow> ids ! j = v"
    and "ids ! e \<noteq> v"
    and "start < s \<longrightarrow> ids ! (s - 1) \<noteq> v"
    and "s \<le> j" "j < e"
  shows "fst (count_group_runs (\<lambda>x. x \<ge> 0) m n i (start, ids, ng)) ! j
           = (if int e - int s < m then 0 else v)"
  using assms
proof (induction "e - i" arbitrary: i start ids ng)
  case 0
  note p = "0.prems"
  have ie: "i = e" using "0.hyps" p(2) by simp
  have st: "start = s" using p(7) p(6) ie by simp
  have lt: "i < n" using ie p(3) by simp
  have vs: "ids ! s = v" using p(10) p(6) by simp
  have diff: "ids ! i \<noteq> ids ! start" using p(11) vs ie st by simp
  obtain start1 ids1 ng1 where cr: "close_run m i (start, ids, ng) = (start1, ids1, ng1)"
    by (cases "close_run m i (start, ids, ng)") auto
  have s1: "start1 = e"
    using close_run_start[of m i start ids ng] cr diff ie by simp
  have l1: "length ids1 = length ids"
    using close_run_length[of m i start ids ng] cr by simp
  have jl: "j < length ids" using p(14) p(3) p(4) by simp
  have vj: "ids ! j = v" using p(10) p(13) p(14) by simp
  have n1: "ids1 ! j = (if int e - int s < m then 0 else v)"
    using close_run_nth[OF jl, of m i start ng] cr diff ie st vj p(13) p(14) by simp
  show ?case
  proof (cases "ids1 ! i \<ge> 0")
    case True
    with lt cr n1 show ?thesis by (subst count_group_runs.simps) (simp add: Let_def)
  next
    case False
    have "fst (count_group_runs (\<lambda>x. x \<ge> 0) m n (i + 1) (start1, ids1, ng1)) ! j = ids1 ! j"
      using s1 ie p(14) l1 jl by (intro count_group_runs_prefix) simp_all
    with False lt cr n1 show ?thesis by (subst count_group_runs.simps) (simp add: Let_def)
  qed
next
  case (Suc k)
  note p = Suc.prems
  have ie: "i < e" using Suc.hyps(2) by simp
  have lt: "i < n" using ie p(3) by simp
  have el: "e < length ids" using p(3) p(4) by simp
  obtain start1 ids1 ng1 where cr: "close_run m i (start, ids, ng) = (start1, ids1, ng1)"
    by (cases "close_run m i (start, ids, ng)") auto
  have s1: "start1 = (if ids ! i \<noteq> ids ! start then i else start)"
    using close_run_start[of m i start ids ng] cr by simp
  have l1: "length ids1 = length ids"
    using close_run_length[of m i start ids ng] cr by simp
  have n1: "ids1 ! t = ids ! t" if "i \<le> t" "t < length ids" for t
    using close_run_nth[OF that(2), of m i start ng] cr that(1) by simp
  have n1': "ids1 ! t = ids ! t" if "start1 \<le> t" "t < length ids" for t
  proof (cases "ids ! i \<noteq> ids ! start")
    case True
    with s1 that(1) have "i \<le> t" by simp
    then show ?thesis using n1 that(2) by simp
  next
    case False
    then show ?thesis using close_run_nth[OF that(2), of m i start ng] cr by simp
  qed
  have neg: "ids ! i < 0" using p(9) ie by simp
  have nostop: "\<not> ids1 ! i \<ge> 0" using n1[of i] neg ie el by simp
  have same_in_run: "ids ! i = ids ! start" if "s < i"
  proof -
    from that p(7) have st: "start = s" by simp
    have "ids ! i = v" using p(10) that ie by simp
    moreover have "ids ! s = v" using p(10) p(6) by simp
    ultimately show ?thesis using st by simp
  qed
  have start1_le_s: "start1 \<le> s"
  proof (cases "ids ! i \<noteq> ids ! start")
    case True
    then have "\<not> s < i" using same_in_run by auto
    with True s1 show ?thesis by simp
  next
    case False
    with s1 p(5) show ?thesis by simp
  qed
  have at_s: "start1 = s" if "s < i + 1"
  proof (cases "s < i")
    case True
    with same_in_run s1 p(7) show ?thesis by simp
  next
    case False
    with that have "is": "i = s" by simp
    show ?thesis
    proof (cases "start = s")
      case True
      with s1 "is" show ?thesis by simp
    next
      case False
      then have ss: "start < s" using p(5) by simp
      then have "ids ! (s - 1) \<noteq> v" using p(12) by simp
      moreover have "ids ! (s - 1) = ids ! start" using p(8)[rule_format, of "s - 1"] ss "is" by simp
      moreover have "ids ! s = v" using p(10) p(6) by simp
      ultimately have "ids ! i \<noteq> ids ! start" using "is" by simp
      with s1 "is" show ?thesis by simp
    qed
  qed
  have k: "k = e - (i + 1)" using Suc.hyps(2) by simp
  have run1: "\<forall>t. start1 \<le> t \<and> t < i + 1 \<longrightarrow> ids1 ! t = ids1 ! start1"
  proof (intro allI impI)
    fix t assume t: "start1 \<le> t \<and> t < i + 1"
    show "ids1 ! t = ids1 ! start1"
    proof (cases "ids ! i \<noteq> ids ! start")
      case True
      with s1 t have "t = i" "start1 = i" by simp_all
      then show ?thesis by simp
    next
      case False
      with s1 have e: "start1 = start" by simp
      have "ids ! t = ids ! start"
      proof (cases "t = i")
        case True
        with False show ?thesis by simp
      next
        case False
        with t e have "start \<le> t \<and> t < i" by simp
        then show ?thesis by (rule p(8)[rule_format])
      qed
      moreover have "ids1 ! t = ids ! t" using n1'[of t] t ie el by simp
      moreover have "ids1 ! start1 = ids ! start" using n1'[of start1] e p(1) ie el by simp
      ultimately show ?thesis by simp
    qed
  qed
  have neg1: "\<forall>t. i + 1 \<le> t \<and> t < e \<longrightarrow> ids1 ! t < 0"
  proof (intro allI impI)
    fix t assume t: "i + 1 \<le> t \<and> t < e"
    then have "ids1 ! t = ids ! t" using n1[of t] el by simp
    moreover have "ids ! t < 0" using p(9) t by simp
    ultimately show "ids1 ! t < 0" by simp
  qed
  have v1: "\<forall>t. s \<le> t \<and> t < e \<longrightarrow> ids1 ! t = v"
  proof (intro allI impI)
    fix t assume t: "s \<le> t \<and> t < e"
    then have "ids1 ! t = ids ! t" using n1'[of t] start1_le_s el by simp
    moreover have "ids ! t = v" using p(10) t by simp
    ultimately show "ids1 ! t = v" by simp
  qed
  have e1: "ids1 ! e \<noteq> v" using n1[of e] ie el p(11) by simp
  have before1: "start1 < s \<longrightarrow> ids1 ! (s - 1) \<noteq> v"
  proof
    assume a: "start1 < s"
    have "start \<le> start1" using s1 p(1) by simp
    with a have "start < s" by simp
    then have "ids ! (s - 1) \<noteq> v" using p(12) by simp
    moreover have "ids1 ! (s - 1) = ids ! (s - 1)" using n1'[of "s - 1"] a p(6) el by simp
    ultimately show "ids1 ! (s - 1) \<noteq> v" by simp
  qed
  have "fst (count_group_runs (\<lambda>x. x \<ge> 0) m n (i + 1) (start1, ids1, ng1)) ! j
           = (if int e - int s < m then 0 else v)"
  proof (rule Suc.hyps(1)[OF k])
    show "start1 \<le> i + 1" using s1 p(1) by simp
    show "i + 1 \<le> e" using ie by simp
    show "e < n" by (rule p(3))
    show "n \<le> length ids1" using l1 p(4) by simp
    show "start1 \<le> s" by (rule start1_le_s)
    show "s < e" by (rule p(6))
    show "s < i + 1 \<longrightarrow> start1 = s" using at_s by simp
    show "\<forall>t. start1 \<le> t \<and> t < i + 1 \<longrightarrow> ids1 ! t = ids1 ! start1" by (rule run1)
    show "\<forall>t. i + 1 \<le> t \<and> t < e \<longrightarrow> ids1 ! t < 0" by (rule neg1)
    show "\<forall>t. s \<le> t \<and> t < e \<longrightarrow> ids1 ! t = v" by (rule v1)
    show "ids1 ! e \<noteq> v" by (rule e1)
    show "start1 < s \<longrightarrow> ids1 ! (s - 1) \<noteq> v" by (rule before1)
    show "s \<le> j" by (rule p(13))
    show "j < e" by (rule p(14))
  qed
  with nostop lt cr show ?case by (subst count_group_runs.simps) (simp add: Let_def)
qed

text \<open>
  The loop taken alone, on an array that is sorted already: a run of equal negative IDs that
  is followed by another array element (a different group or an ungrouped particle) is reset
  to 0 exactly when it is shorter than \<open>minsize\<close>.
\<close>

lemma count_group_runs_inner_run:
  assumes "s < e" "e < length ids"
    and "\<forall>j < e. ids ! j < 0"
    and "\<forall>j. s \<le> j \<and> j < e \<longrightarrow> ids ! j = v"
    and "s = 0 \<or> ids ! (s - 1) \<noteq> v"
    and "ids ! e \<noteq> v"
    and "s \<le> j" "j < e"
  shows "fst (count_group_runs (\<lambda>x. x \<ge> 0) minsize (length ids) 0 (0, ids, 0)) ! j
           = (if int e - int s < minsize then 0 else v)"
proof (rule count_group_runs_closed_run[where s = s and e = e])
  show "(0::nat) \<le> 0" "0 \<le> e" "0 \<le> s" by simp_all
  show "e < length ids" "length ids \<le> length ids" "s < e" using assms(1,2) by simp_all
  show "s < 0 \<longrightarrow> 0 = s" by simp
  show "\<forall>j. 0 \<le> j \<and> j < 0 \<longrightarrow> ids ! j = ids ! 0" by simp
  show "\<forall>j. 0 \<le> j \<and> j < e \<longrightarrow> ids ! j < 0" using assms(3) by simp
  show "\<forall>j. s \<le> j \<and> j < e \<longrightarrow> ids ! j = v" by (rule assms(4))
  show "ids ! e \<noteq> v" by (rule assms(6))
  show "0 < s \<longrightarrow> ids ! (s - 1) \<noteq> v" using assms(5) by auto
  show "s \<le> j" "j < e" by (rule assms(7), rule assms(8))
qed

text \<open>
  Claim C4 says that, after the sort, every maximal run of \<open>k\<close> particles with the same
  nonzero group id is reset to 0 if and only if \<open>k < minsize\<close>, the final run of the array
  included. The loop closes a run only when it meets the next different ID, so a run that
  ends the array is never examined, and only the reset of the last \<^verbatim>\<open>NExport\<close> IDs can
  still reach it. With no exported particle (\<open>NExport = 0\<close>), \<open>minsize = 2\<close> and the IDs
  \<open>[-5, -5, -3]\<close> (two particles of group 5, one of group 3, no ungrouped particle) the single
  particle of group 3 keeps its group, although \<open>1 < minsize\<close>, and one group is counted.
  With an ungrouped particle behind it the same run is reset by the loop; with one exported
  particle it is reset by the reset of the last \<^verbatim>\<open>NExport\<close> IDs, which resets a final
  run of two particles of group 3 as well, although \<open>2 = minsize\<close>.
\<close>

theorem MPICompileGroups_final_run_unfiltered:
  "MPICompileGroups_filter 0 2 [- 5, - 5, - 3] = Inr ([5, 5, 3], 1)
   \<and> MPICompileGroups_filter 0 2 [- 5, - 5, - 3, 0] = Inr ([5, 5, 0, 0], 1)
   \<and> MPICompileGroups_filter 1 2 [- 5, - 5, - 3] = Inr ([5, 5, 0], 1)
   \<and> MPICompileGroups_filter 1 2 [- 5, - 5, - 3, - 3] = Inr ([5, 5, 3, 0], 1)"
  by (simp add: MPICompileGroups_filter_def std_sort_def close_run_def count_group_runs.simps)

section \<open>The mesh export planner\<close>

text \<open>
  Within one period of the box the fold of a coordinate is the remainder modulo the grid
  resolution, and the cell index lies in the grid.
\<close>

lemma wrap_cell_mod:
  assumes "0 < n" "- n \<le> i" "i < 2 * n"
  shows "wrap_cell n i = i mod n"
proof -
  consider "i < 0" | "0 \<le> i" "i < n" | "n \<le> i" by linarith
  then show ?thesis
  proof cases
    case 1
    have "(i + n) mod n = i + n" using 1 assms by (intro mod_pos_pos_trivial) simp_all
    then have "i mod n = i + n" by simp
    with 1 show ?thesis by (simp add: wrap_cell_def)
  next
    case 2
    then show ?thesis by (simp add: wrap_cell_def)
  next
    case 3
    have "(i - n) mod n = i - n" using 3 assms by (intro mod_pos_pos_trivial) simp_all
    then have "i mod n = i - n" by simp
    with 3 assms show ?thesis by (simp add: wrap_cell_def)
  qed
qed

lemma wrap_cell_range:
  assumes "0 < n" "- n \<le> i" "i < 2 * n"
  shows "0 \<le> wrap_cell n i \<and> wrap_cell n i < n"
  using assms by (auto simp: wrap_cell_def)

lemma digits_range:
  fixes a b c n :: int
  assumes "0 \<le> a" "a < n" "0 \<le> b" "b < n" "0 \<le> c" "c < n"
  shows "0 \<le> a + b * n + c * n * n \<and> a + b * n + c * n * n < n * n * n"
proof -
  have n: "0 < n" using assms by simp
  have "b * n \<le> (n - 1) * n" using assms n by (intro mult_right_mono) simp_all
  then have ab: "a + b * n < n * n" using assms by (simp add: algebra_simps)
  have "c * (n * n) \<le> (n - 1) * (n * n)" using assms n by (intro mult_right_mono) simp_all
  then have "a + b * n + c * (n * n) < n * (n * n)" using ab by (simp add: algebra_simps)
  moreover have "0 \<le> b * n" "0 \<le> c * (n * n)" using assms n by simp_all
  ultimately show ?thesis using assms by (simp add: mult.assoc)
qed

lemma cell_index_range:
  assumes "0 < n" "- n \<le> ix" "ix < 2 * n" "- n \<le> iy" "iy < 2 * n" "- n \<le> iz" "iz < 2 * n"
  shows "0 \<le> cell_index n ix iy iz \<and> cell_index n ix iy iz < n * n * n"
  unfolding cell_index_def
  using wrap_cell_range[OF assms(1,2,3)] wrap_cell_range[OF assms(1,4,5)]
    wrap_cell_range[OF assms(1,6,7)]
  by (intro digits_range) simp_all

lemma cell_nodes_ok:
  assumes "0 \<le> index" "index < int (length cellnodeids)"
    and "newcellnodeids = [] \<or> length newcellnodeids = length cellnodeids"
    and "\<forall>t \<in> set cellnodeids. 0 \<le> t \<and> t < NProcs"
    and "\<forall>ts \<in> set newcellnodeids. \<forall>t \<in> set ts. 0 \<le> t \<and> t < NProcs"
  shows "\<exists>xs. cell_nodes cellnodeids newcellnodeids ThisTask index = Inr xs
           \<and> (\<forall>c \<in> set xs. 0 \<le> c \<and> c < NProcs \<and> c \<noteq> ThisTask)"
proof -
  have own: "0 \<le> cellnodeids ! nat index \<and> cellnodeids ! nat index < NProcs"
    using assms(1,2,4) by (simp add: nat_less_iff)
  show ?thesis
  proof (cases "newcellnodeids = []")
    case True
    with assms(1,2) own show ?thesis by (simp add: cell_nodes_def Let_def)
  next
    case False
    with assms(3) have l: "length newcellnodeids = length cellnodeids" by simp
    have "newcellnodeids ! nat index \<in> set newcellnodeids"
      using assms(1,2) l by (simp add: nat_less_iff)
    with assms(5) have new: "\<forall>t \<in> set (newcellnodeids ! nat index). 0 \<le> t \<and> t < NProcs"
      by blast
    from False assms(1,2) own l new show ?thesis
      by (auto simp: cell_nodes_def Let_def)
  qed
qed

lemma collect_ok:
  "(\<forall>i \<in> set cells. \<exists>xs. f i = Inr xs \<and> (\<forall>c \<in> set xs. Q c)) \<Longrightarrow>
   \<exists>ys. collect f cells = Inr ys \<and> (\<forall>c \<in> set ys. Q c)"
proof (induction cells)
  case Nil
  then show ?case by simp
next
  case (Cons i rest)
  then obtain xs where xs: "f i = Inr xs" "\<forall>c \<in> set xs. Q c" by auto
  from Cons obtain ys where ys: "collect f rest = Inr ys" "\<forall>c \<in> set ys. Q c" by auto
  from xs ys show ?case by auto
qed

lemma cell_node_list_ok:
  assumes "0 < n" "int (length cellnodeids) = n * n * n"
    and "newcellnodeids = [] \<or> length newcellnodeids = length cellnodeids"
    and "\<forall>t \<in> set cellnodeids. 0 \<le> t \<and> t < NProcs"
    and "\<forall>ts \<in> set newcellnodeids. \<forall>t \<in> set ts. 0 \<le> t \<and> t < NProcs"
    and "within_one_period n r"
  shows "\<exists>ys. MPIGetCellNodeIDListInSearchUsingMesh n cellnodeids newcellnodeids ThisTask r = Inr ys
           \<and> (\<forall>c \<in> set ys. 0 \<le> c \<and> c < NProcs \<and> c \<noteq> ThisTask)"
proof -
  obtain ixs ixe iys iye izs ize where r: "r = (ixs, ixe, iys, iye, izs, ize)"
    by (cases r) auto
  have b: "- n \<le> ixs" "ixe < 2 * n" "- n \<le> iys" "iye < 2 * n" "- n \<le> izs" "ize < 2 * n"
    using assms(6) by (simp_all add: r within_one_period_def)
  let ?cells = "concat (map (\<lambda>ix. concat (map (\<lambda>iy. map (\<lambda>iz. cell_index n ix iy iz)
             [izs..ize]) [iys..iye])) [ixs..ixe])"
  have each: "\<forall>i \<in> set ?cells. \<exists>xs. cell_nodes cellnodeids newcellnodeids ThisTask i = Inr xs
                \<and> (\<forall>c \<in> set xs. 0 \<le> c \<and> c < NProcs \<and> c \<noteq> ThisTask)"
  proof
    fix i assume "i \<in> set ?cells"
    then obtain ix iy iz where c: "ixs \<le> ix" "ix \<le> ixe" "iys \<le> iy" "iy \<le> iye"
        "izs \<le> iz" "iz \<le> ize" "i = cell_index n ix iy iz"
      by auto
    have "0 \<le> i \<and> i < n * n * n"
      unfolding c(7) using assms(1) b c(1-6) by (intro cell_index_range) simp_all
    then have "0 \<le> i" "i < int (length cellnodeids)" using assms(2) by simp_all
    then show "\<exists>xs. cell_nodes cellnodeids newcellnodeids ThisTask i = Inr xs
                \<and> (\<forall>c \<in> set xs. 0 \<le> c \<and> c < NProcs \<and> c \<noteq> ThisTask)"
      using assms(3,4,5) by (rule cell_nodes_ok)
  qed
  have "\<exists>ys. collect (cell_nodes cellnodeids newcellnodeids ThisTask) ?cells = Inr ys
           \<and> (\<forall>c \<in> set ys. 0 \<le> c \<and> c < NProcs \<and> c \<noteq> ThisTask)"
    using each by (rule collect_ok)
  then show ?thesis by (simp add: MPIGetCellNodeIDListInSearchUsingMesh_def r)
qed

text \<open>The loop over the list of one particle keeps the invariant and does not fail.\<close>

lemma export_to_nodes_inv:
  assumes "export_inv i ThisTask P later s"
    and "\<forall>c \<in> set cs. 0 \<le> c \<and> c < int P \<and> c \<noteq> ThisTask"
    and "\<And>c. fd_Index (mk c) = i \<and> fd_Task (mk c) = c"
    and "0 \<le> ThisTask" "i \<notin> later"
  shows "\<exists>s'. export_to_nodes mk cs s = Inr s' \<and> export_inv i ThisTask P later s'"
  using assms(1,2)
proof (induction cs arbitrary: s)
  case Nil
  then show ?case by simp
next
  case (Cons c rest)
  have c: "0 \<le> c" "c < int P" "c \<noteq> ThisTask" using Cons.prems(2) by simp_all
  have rest: "\<forall>c \<in> set rest. 0 \<le> c \<and> c < int P \<and> c \<noteq> ThisTask" using Cons.prems(2) by simp
  note inv = Cons.prems(1)[unfolded export_inv_def]
  have ls: "length (es_sent_mpi_domain s) = P" and ln: "length (es_nsend_local s) = P"
    using inv by simp_all
  have cn: "nat c < P" using c by simp
  have inrange: "\<not> (c < 0 \<or> c \<ge> int (length (es_sent_mpi_domain s))
         \<or> c \<ge> int (length (es_nsend_local s)))"
    using c ls ln by simp
  show ?case
  proof (cases "es_sent_mpi_domain s ! nat c = 1")
    case True
    from Cons.IH[OF Cons.prems(1) rest] True inrange show ?thesis by simp
  next
    case False
    have zero: "es_sent_mpi_domain s ! nat c = 0" using inv cn False by blast
    define s1 where "s1 = \<lparr>es_sent_mpi_domain = (es_sent_mpi_domain s)
                 [nat c := es_sent_mpi_domain s ! nat c + 1],
              es_FoFDataIn = es_FoFDataIn s @ [mk c],
              es_nsend_local = (es_nsend_local s)
                 [nat c := es_nsend_local s ! nat c + 1]\<rparr>"
    have step: "export_to_nodes mk (c # rest) s = export_to_nodes mk rest s1"
      using False inrange by (simp add: s1_def)
    have sent1: "es_sent_mpi_domain s1 = (es_sent_mpi_domain s)[nat c := 1]"
      by (simp add: s1_def zero)
    have recs1: "es_FoFDataIn s1 = es_FoFDataIn s @ [mk c]" by (simp add: s1_def)
    have fresh: "(i, c) \<notin> set (map (\<lambda>r. (fd_Index r, fd_Task r)) (es_FoFDataIn s))"
    proof
      assume "(i, c) \<in> set (map (\<lambda>r. (fd_Index r, fd_Task r)) (es_FoFDataIn s))"
      then obtain r where r: "r \<in> set (es_FoFDataIn s)" "fd_Index r = i" "fd_Task r = c" by auto
      with inv have "es_sent_mpi_domain s ! nat (fd_Task r) = 1" by blast
      with r zero show False by simp
    qed
    have i1: "length (es_sent_mpi_domain s1) = P" "length (es_nsend_local s1) = P"
      using ls ln by (simp_all add: s1_def)
    have i2: "\<forall>t < P. es_sent_mpi_domain s1 ! t = 0 \<or> es_sent_mpi_domain s1 ! t = 1"
    proof (intro allI impI)
      fix t assume t: "t < P"
      with inv have "es_sent_mpi_domain s ! t = 0 \<or> es_sent_mpi_domain s ! t = 1" by blast
      then show "es_sent_mpi_domain s1 ! t = 0 \<or> es_sent_mpi_domain s1 ! t = 1"
        using t ls cn by (auto simp add: sent1 nth_list_update)
    qed
    have i3: "distinct (map (\<lambda>r. (fd_Index r, fd_Task r)) (es_FoFDataIn s1))"
      using inv fresh assms(3) by (simp add: recs1)
    have i4: "\<forall>r \<in> set (es_FoFDataIn s1).
         fd_Task r \<noteq> ThisTask \<and> fd_Index r \<notin> later \<and>
         (fd_Index r = i \<longrightarrow>
            0 \<le> fd_Task r \<and> fd_Task r < int P \<and> es_sent_mpi_domain s1 ! nat (fd_Task r) = 1)"
    proof
      fix r assume "r \<in> set (es_FoFDataIn s1)"
      then consider "r \<in> set (es_FoFDataIn s)" | "r = mk c" by (auto simp: recs1)
      then show "fd_Task r \<noteq> ThisTask \<and> fd_Index r \<notin> later \<and>
         (fd_Index r = i \<longrightarrow>
            0 \<le> fd_Task r \<and> fd_Task r < int P \<and> es_sent_mpi_domain s1 ! nat (fd_Task r) = 1)"
      proof cases
        case 1
        with inv have old: "fd_Task r \<noteq> ThisTask" "fd_Index r \<notin> later"
          "fd_Index r = i \<longrightarrow>
            0 \<le> fd_Task r \<and> fd_Task r < int P \<and> es_sent_mpi_domain s ! nat (fd_Task r) = 1"
          by blast+
        have "es_sent_mpi_domain s1 ! nat (fd_Task r) = 1"
          if "fd_Index r = i"
        proof -
          from that old(3) have o: "0 \<le> fd_Task r" "fd_Task r < int P"
            "es_sent_mpi_domain s ! nat (fd_Task r) = 1" by simp_all
          have "nat c < length (es_sent_mpi_domain s)" using cn ls by simp
          with o(3) show ?thesis by (simp add: sent1 nth_list_update)
        qed
        with old show ?thesis by blast
      next
        case 2
        have "es_sent_mpi_domain s1 ! nat c = 1" using cn ls by (simp add: sent1)
        with 2 assms(3)[of c] c assms(5) show ?thesis by simp
      qed
    qed
    have i5: "es_nsend_local s1 ! nat ThisTask = 0"
    proof -
      have "nat c \<noteq> nat ThisTask" using c assms(4) by simp
      moreover have "es_nsend_local s ! nat ThisTask = 0" using inv by blast
      ultimately show ?thesis by (simp add: s1_def)
    qed
    have "export_inv i ThisTask P later s1"
      unfolding export_inv_def using i1 i2 i3 i4 i5 by blast
    from Cons.IH[OF this rest] show ?thesis by (simp only: step)
  qed
qed

lemma export_particles_ok:
  assumes "0 < n" "int (length cellnodeids) = n * n * n"
    and "newcellnodeids = [] \<or> length newcellnodeids = length cellnodeids"
    and "\<forall>t \<in> set cellnodeids. 0 \<le> t \<and> t < NProcs"
    and "\<forall>ts \<in> set newcellnodeids. \<forall>t \<in> set ts. 0 \<le> t \<and> t < NProcs"
    and "0 \<le> ThisTask" "ThisTask < NProcs"
    and "\<forall>i \<in> set particles. within_one_period n (cells i)"
    and "distinct particles"
    and "length nsend = nat NProcs" "nsend ! nat ThisTask = 0"
    and "distinct (map (\<lambda>r. (fd_Index r, fd_Task r)) recs)"
    and "\<forall>r \<in> set recs. fd_Task r \<noteq> ThisTask \<and> fd_Index r \<notin> set particles"
  shows "\<exists>recs' nsend'.
           export_particles n cellnodeids newcellnodeids ThisTask NProcs cells Part pfof' Len'
             particles (recs, nsend) = Inr (recs', nsend')
         \<and> (\<forall>r \<in> set recs'. fd_Task r \<noteq> ThisTask)
         \<and> distinct (map (\<lambda>r. (fd_Index r, fd_Task r)) recs')
         \<and> nsend' ! nat ThisTask = 0"
  using assms(8-13)
proof (induction particles arbitrary: recs nsend)
  case Nil
  then show ?case by simp
next
  case (Cons i rest)
  have w: "within_one_period n (cells i)" using Cons.prems(1) by simp
  from cell_node_list_ok[OF assms(1-5) w, of ThisTask]
  obtain ys where ys: "MPIGetCellNodeIDListInSearchUsingMesh n cellnodeids newcellnodeids
                         ThisTask (cells i) = Inr ys"
    "\<forall>c \<in> set ys. 0 \<le> c \<and> c < NProcs \<and> c \<noteq> ThisTask" by blast
  let ?mk = "\<lambda>cellnodeID. \<lparr>fd_Index = i, fd_Task = cellnodeID,
                                 fd_iGroup = pfof' (GetID (Part i)), fd_iGroupTask = ThisTask,
                                 fd_iLen = Len' i\<rparr>"
  let ?s0 = "\<lparr>es_sent_mpi_domain = replicate (nat NProcs) 0, es_FoFDataIn = recs,
                   es_nsend_local = nsend\<rparr>"
  have inv0: "export_inv i ThisTask (nat NProcs) (set rest) ?s0"
    unfolding export_inv_def using Cons.prems by auto
  have ys': "\<forall>c \<in> set ys. 0 \<le> c \<and> c < int (nat NProcs) \<and> c \<noteq> ThisTask"
    using ys(2) assms(6,7) by auto
  have inot: "i \<notin> set rest" using Cons.prems(2) by simp
  from export_to_nodes_inv[OF inv0 ys' _ assms(6) inot, of ?mk]
  obtain s' where s': "export_to_nodes ?mk ys ?s0 = Inr s'"
    "export_inv i ThisTask (nat NProcs) (set rest) s'" by auto
  note inv = s'(2)[unfolded export_inv_def]
  have "\<exists>recs' nsend'.
           export_particles n cellnodeids newcellnodeids ThisTask NProcs cells Part pfof' Len'
             rest (es_FoFDataIn s', es_nsend_local s') = Inr (recs', nsend')
         \<and> (\<forall>r \<in> set recs'. fd_Task r \<noteq> ThisTask)
         \<and> distinct (map (\<lambda>r. (fd_Index r, fd_Task r)) recs')
         \<and> nsend' ! nat ThisTask = 0"
  proof (rule Cons.IH)
    show "\<forall>i \<in> set rest. within_one_period n (cells i)" using Cons.prems(1) by simp
    show "distinct rest" using Cons.prems(2) by simp
    show "length (es_nsend_local s') = nat NProcs" using inv by blast
    show "es_nsend_local s' ! nat ThisTask = 0" using inv by blast
    show "distinct (map (\<lambda>r. (fd_Index r, fd_Task r)) (es_FoFDataIn s'))" using inv by blast
    show "\<forall>r \<in> set (es_FoFDataIn s'). fd_Task r \<noteq> ThisTask \<and> fd_Index r \<notin> set rest"
      using inv by blast
  qed
  then show ?case by (simp add: ys(1) s'(1))
qed

text \<open>
  Claim C5, as the code has it. Take a mesh with a complete owner table whose entries (and
  those of the table of newly associated tasks) are tasks, and particles whose search
  intervals stay within one period of the box on each axis. Then the fold of a covered cell
  coordinate is its remainder modulo the grid resolution; the planner runs without leaving
  its tables; no export record has this task as destination; no two records have the same
  particle and destination; and the send count of this task to itself is zero.
\<close>

theorem mesh_export_plan:
  assumes "0 < numcellsperdim"
    and "int (length cellnodeids) = numcellsperdim * numcellsperdim * numcellsperdim"
    and "newcellnodeids = [] \<or> length newcellnodeids = length cellnodeids"
    and "\<forall>t \<in> set cellnodeids. 0 \<le> t \<and> t < NProcs"
    and "\<forall>ts \<in> set newcellnodeids. \<forall>t \<in> set ts. 0 \<le> t \<and> t < NProcs"
    and "0 \<le> ThisTask" "ThisTask < NProcs"
    and "\<forall>i. 0 \<le> i \<and> i < nbodies \<longrightarrow> within_one_period numcellsperdim (cells i)"
  shows "(\<forall>j. - numcellsperdim \<le> j \<and> j < 2 * numcellsperdim \<longrightarrow>
            wrap_cell numcellsperdim j = j mod numcellsperdim)
       \<and> (\<exists>FoFDataIn nsend_local.
            MPIBuildParticleExportListUsingMesh numcellsperdim cellnodeids newcellnodeids ThisTask
              NProcs cells Part pfof' Len' nbodies = Inr (FoFDataIn, nsend_local)
            \<and> (\<forall>r \<in> set FoFDataIn. fd_Task r \<noteq> ThisTask)
            \<and> distinct (map (\<lambda>r. (fd_Index r, fd_Task r)) FoFDataIn)
            \<and> nsend_local ! nat ThisTask = 0)"
proof -
  have wrap: "\<forall>j. - numcellsperdim \<le> j \<and> j < 2 * numcellsperdim \<longrightarrow>
            wrap_cell numcellsperdim j = j mod numcellsperdim"
    using assms(1) by (simp add: wrap_cell_mod)
  have p: "\<forall>i \<in> set [0..nbodies - 1]. within_one_period numcellsperdim (cells i)"
    using assms(8) by simp
  have "\<exists>recs' nsend'.
           export_particles numcellsperdim cellnodeids newcellnodeids ThisTask NProcs cells Part
             pfof' Len' [0..nbodies - 1] ([], replicate (nat NProcs) 0) = Inr (recs', nsend')
         \<and> (\<forall>r \<in> set recs'. fd_Task r \<noteq> ThisTask)
         \<and> distinct (map (\<lambda>r. (fd_Index r, fd_Task r)) recs')
         \<and> nsend' ! nat ThisTask = 0"
  proof (rule export_particles_ok[OF assms(1-7) p])
    show "distinct [0..nbodies - 1]" by simp
    show "length (replicate (nat NProcs) (0::int)) = nat NProcs" by simp
    show "replicate (nat NProcs) (0::int) ! nat ThisTask = 0" using assms(6,7) by simp
    show "distinct (map (\<lambda>r. (fd_Index r, fd_Task r)) [])" by simp
    show "\<forall>r \<in> set []. fd_Task r \<noteq> ThisTask \<and> fd_Index r \<notin> set [0..nbodies - 1]" by simp
  qed
  with wrap show ?thesis unfolding MPIBuildParticleExportListUsingMesh_def by blast
qed

text \<open>
  The theorem on the example mesh: both particles reach the cell of task 1 through two
  covered cells and are exported to it once each.
\<close>

theorem mesh_export_plan_witness:
  "(0::int) < 2 \<and> int (length ex_cellnodeids) = 2 * 2 * 2
   \<and> set ex_cellnodeids \<subseteq> {0..<2}
   \<and> within_one_period 2 (ex_cells_near 0) \<and> within_one_period 2 (ex_cells_near 1)
   \<and> MPIBuildParticleExportListUsingMesh 2 ex_cellnodeids [] 0 2 ex_cells_near ex_Part
        (pfof (ex_state 3)) (Len (ex_state 3)) 2
      = Inr ([\<lparr>fd_Index = 0, fd_Task = 1, fd_iGroup = 3, fd_iGroupTask = 0, fd_iLen = 2\<rparr>,
              \<lparr>fd_Index = 1, fd_Task = 1, fd_iGroup = 3, fd_iGroupTask = 0, fd_iLen = 2\<rparr>],
             [0, 2])
   \<and> wrap_cell 2 (- 1) = 1"
proof -
  have h1: "(0::int) < 2" by simp
  have h2: "int (length ex_cellnodeids) = 2 * 2 * 2" by (simp add: ex_cellnodeids_def)
  have h3: "[] = [] \<or> length ([] :: int list list) = length ex_cellnodeids" by simp
  have h4: "\<forall>t \<in> set ex_cellnodeids. 0 \<le> t \<and> t < 2" by (simp add: ex_cellnodeids_def)
  have h5: "\<forall>ts \<in> set ([] :: int list list). \<forall>t \<in> set ts. 0 \<le> t \<and> t < 2" by simp
  have h6: "(0::int) \<le> 0" "(0::int) < 2" by simp_all
  have w: "within_one_period 2 (ex_cells_near i)" for i
    by (simp add: within_one_period_def ex_cells_near_def)
  have h8: "\<forall>i. 0 \<le> i \<and> i < 2 \<longrightarrow> within_one_period 2 (ex_cells_near i)" using w by simp
  note t = mesh_export_plan[OF h1 h2 h3 h4 h5 h6 h8, of ex_Part "pfof (ex_state 3)" "Len (ex_state 3)"]
  from t have wr: "wrap_cell 2 (- 1) = (- 1) mod 2" by simp
  from t obtain F n where plan:
    "MPIBuildParticleExportListUsingMesh 2 ex_cellnodeids [] 0 2 ex_cells_near ex_Part
        (pfof (ex_state 3)) (Len (ex_state 3)) 2 = Inr (F, n)"
    "n ! nat 0 = 0"
    by blast
  have val: "MPIBuildParticleExportListUsingMesh 2 ex_cellnodeids [] 0 2 ex_cells_near ex_Part
        (pfof (ex_state 3)) (Len (ex_state 3)) 2
      = Inr ([\<lparr>fd_Index = 0, fd_Task = 1, fd_iGroup = 3, fd_iGroupTask = 0, fd_iLen = 2\<rparr>,
              \<lparr>fd_Index = 1, fd_Task = 1, fd_iGroup = 3, fd_iGroupTask = 0, fd_iLen = 2\<rparr>],
             [0, 2])"
    by (simp add: MPIBuildParticleExportListUsingMesh_def
        MPIGetCellNodeIDListInSearchUsingMesh_def cell_nodes_def cell_index_def wrap_cell_def
        ex_cellnodeids_def ex_cells_near_def ex_Part_def ex_state_def upto.simps numeral_2_eq_2)
  have sub: "set ex_cellnodeids \<subseteq> {0..<2}" using h4 by auto
  from h1 h2 sub w[of 0] w[of 1] val wr show ?thesis by simp
qed

text \<open>
  Claim C5 as it is stated holds for every search radius. The coordinates are folded back
  once, not reduced modulo the resolution: with resolution 2 the coordinate 4 becomes 2, not
  0, so a search interval that covers only the column \<open>iz = 4\<close> (the local cell (0, 0, 0)
  modulo 2) is resolved to the cell (0, 1, 0) of task 1 and the particle is exported there,
  while the interval of the cell (0, 0, 0) itself exports nothing; with \<open>ix = 4\<close> the index
  leaves the owner table.
\<close>

theorem mesh_export_far_interval_counterexample:
  "wrap_cell 2 4 = 2 \<and> (4::int) mod 2 = 0
   \<and> MPIGetCellNodeIDListInSearchUsingMesh 2 ex_cellnodeids [] 0 (0, 0, 0, 0, 4, 4) = Inr [1]
   \<and> MPIGetCellNodeIDListInSearchUsingMesh 2 ex_cellnodeids [] 0 (0, 0, 0, 0, 0, 0) = Inr []
   \<and> MPIGetCellNodeIDListInSearchUsingMesh 2 ex_cellnodeids [] 0 (4, 4, 0, 0, 0, 0)
       = Inl OutOfBounds
   \<and> MPIBuildParticleExportListUsingMesh 2 ex_cellnodeids [] 0 2 ex_cells_far ex_Part
        (pfof (ex_state 3)) (Len (ex_state 3)) 1
      = Inr ([\<lparr>fd_Index = 0, fd_Task = 1, fd_iGroup = 3, fd_iGroupTask = 0, fd_iLen = 2\<rparr>],
             [0, 1])"
  by (simp add: MPIBuildParticleExportListUsingMesh_def
      MPIGetCellNodeIDListInSearchUsingMesh_def cell_nodes_def cell_index_def wrap_cell_def
      ex_cellnodeids_def ex_cells_far_def ex_Part_def ex_state_def upto.simps numeral_2_eq_2)


section \<open>The mesh decomposition assigns runs of the Z-order\<close>

lemma concat_rows_upt:
  "concat (map (\<lambda>a. map (\<lambda>b. a * m + b) [0..<m]) [0..<k]) = [0..<k * m]"
proof (induction k)
  case 0
  then show ?case by simp
next
  case (Suc k)
  have row: "map (\<lambda>b. k * m + b) [0..<m] = [k * m..<k * m + m]"
    using map_add_upt[of "k * m" m] by (simp add: add.commute)
  have "[0..<Suc k * m] = [0..<k * m] @ [k * m..<k * m + m]"
    using upt_add_eq_append[of 0 "k * m" m] by (simp add: add.commute)
  with Suc row show ?case by simp
qed

lemma zcurve_fill_indices: "map zc_index (zcurve_fill n) = [0..<n * n * n]"
proof -
  have inner: "concat (map (\<lambda>iy. map (\<lambda>iz. ix * n * n + iy * n + iz) [0..<n]) [0..<n])
        = map (\<lambda>r. ix * (n * n) + r) [0..<n * n]" for ix
  proof -
    have "concat (map (\<lambda>iy. map (\<lambda>iz. ix * n * n + iy * n + iz) [0..<n]) [0..<n])
        = map (\<lambda>r. ix * (n * n) + r) (concat (map (\<lambda>iy. map (\<lambda>iz. iy * n + iz) [0..<n]) [0..<n]))"
      by (simp add: map_concat comp_def algebra_simps)
    then show ?thesis by (simp only: concat_rows_upt)
  qed
  have "map zc_index (zcurve_fill n)
        = concat (map (\<lambda>ix. concat (map (\<lambda>iy. map (\<lambda>iz. ix * n * n + iy * n + iz) [0..<n]) [0..<n])) [0..<n])"
    by (simp add: zcurve_fill_def map_concat comp_def)
  also have "\<dots> = concat (map (\<lambda>ix. map (\<lambda>r. ix * (n * n) + r) [0..<n * n]) [0..<n])"
    by (simp only: inner)
  also have "\<dots> = [0..<n * (n * n)]"
    by (rule concat_rows_upt)
  finally show ?thesis by (simp add: mult.assoc)
qed

lemma sorted_zcurve_facts:
  "length (sorted_zcurve n) = n * n * n"
  "distinct (map zc_index (sorted_zcurve n))"
  "z \<in> set (sorted_zcurve n) \<Longrightarrow> zc_index z < n * n * n"
proof -
  have l: "length (zcurve_fill n) = n * n * n"
    using arg_cong[OF zcurve_fill_indices[of n], of length] by simp
  show "length (sorted_zcurve n) = n * n * n"
    by (simp add: sorted_zcurve_def length_std_sort l)
  show "distinct (map zc_index (sorted_zcurve n))"
    by (simp add: sorted_zcurve_def distinct_map_std_sort zcurve_fill_indices)
  assume "z \<in> set (sorted_zcurve n)"
  then have "z \<in> set (zcurve_fill n)" by (simp add: sorted_zcurve_def set_std_sort)
  then have "zc_index z \<in> set (map zc_index (zcurve_fill n))" by (simp only: set_map image_eqI)
  then show "zc_index z < n * n * n" by (simp only: zcurve_fill_indices) simp
qed

lemma sorted_zcurve_sorted:
  "sorted_wrt (\<lambda>a b. unat (zc_zcurvevalue a) \<le> unat (zc_zcurvevalue b)) (sorted_zcurve n)"
proof -
  have e: "zcurve_less = (\<lambda>a b. unat (zc_zcurvevalue a) < unat (zc_zcurvevalue b))"
    by (simp add: fun_eq_iff zcurve_less_def)
  show ?thesis
    unfolding sorted_zcurve_def e by (rule sorted_std_sort_key)
qed

lemma assign_cells_lengths:
  "length (ma_cellnodeids (assign_cells nsub P zs i s)) = length (ma_cellnodeids s)"
  "length (ma_cellnodeorder (assign_cells nsub P zs i s)) = length (ma_cellnodeorder s)"
  by (induction zs arbitrary: i s) (simp_all add: Let_def)

lemma assign_cells_order_before:
  "j < i \<Longrightarrow> ma_cellnodeorder (assign_cells nsub P zs i s) ! j = ma_cellnodeorder s ! j"
  by (induction zs arbitrary: i s) (simp_all add: Let_def)

lemma assign_cells_ids_other:
  "x \<notin> zc_index ` set zs \<Longrightarrow>
   ma_cellnodeids (assign_cells nsub P zs i s) ! x = ma_cellnodeids s ! x"
  by (induction zs arbitrary: i s) (simp_all add: Let_def)

lemma assign_cells_rank:
  assumes "1 \<le> nsub" "0 \<le> ma_count s" "ma_count s \<le> nsub"
    and "0 \<le> ma_itask s" "ma_itask s \<le> P - 1"
    and "distinct (map zc_index zs)"
    and "\<forall>z \<in> set zs. zc_index z < length (ma_cellnodeids s)"
    and "i + length zs \<le> length (ma_cellnodeorder s)"
    and "k < length zs"
  shows "ma_cellnodeorder (assign_cells nsub P zs i s) ! (i + k) = zc_index (zs ! k)
       \<and> ma_cellnodeids (assign_cells nsub P zs i s) ! zc_index (zs ! k)
           = min (ma_itask s + (ma_count s + int k) div nsub) (P - 1)"
  using assms
proof (induction zs arbitrary: i s k)
  case Nil
  then show ?case by simp
next
  case (Cons z zs)
  define count1 where "count1 = (if ma_count s = nsub then 0 else ma_count s)"
  define itask1 where "itask1 = (if ma_count s = nsub then ma_itask s + 1 else ma_itask s)"
  define itask2 where "itask2 = (if itask1 = P then itask1 - 1 else itask1)"
  define s1 where "s1 = \<lparr>ma_itask = itask2, ma_count = count1 + 1,
            ma_cellnodeids = (ma_cellnodeids s)[zc_index z := itask2],
            ma_cellnodeorder = (ma_cellnodeorder s)[i := zc_index z],
            ma_numcellspertask =
              (ma_numcellspertask s)[nat itask2 := ma_numcellspertask s ! nat itask2 + 1]\<rparr>"
  have step: "assign_cells nsub P (z # zs) i s = assign_cells nsub P zs (i + 1) s1"
    by (simp add: Let_def s1_def itask2_def itask1_def count1_def)
  note p = Cons.prems
  have t2: "itask2 = min (ma_itask s + ma_count s div nsub) (P - 1)"
  proof (cases "ma_count s = nsub")
    case True
    then have "ma_count s div nsub = 1" using p(1) by simp
    with True p(5) show ?thesis by (simp add: itask2_def itask1_def min_def)
  next
    case False
    then have "ma_count s div nsub = 0" using p(2,3) by simp
    with False p(5) show ?thesis by (simp add: itask2_def itask1_def min_def)
  qed
  have s1_itask: "ma_itask s1 = itask2" and s1_count: "ma_count s1 = count1 + 1"
    by (simp_all add: s1_def)
  have c1: "0 \<le> ma_count s1" "ma_count s1 \<le> nsub"
    using p(1,2,3) by (auto simp: s1_count count1_def)
  have i1: "0 \<le> ma_itask s1" "ma_itask s1 \<le> P - 1"
    using p(4,5) by (auto simp: s1_itask itask2_def itask1_def)
  have d1: "distinct (map zc_index zs)" and znew: "zc_index z \<notin> zc_index ` set zs"
    using p(6) by simp_all
  have r1: "\<forall>z \<in> set zs. zc_index z < length (ma_cellnodeids s1)"
    using p(7) by (simp add: s1_def)
  have l1: "(i + 1) + length zs \<le> length (ma_cellnodeorder s1)"
    using p(8) by (simp add: s1_def)
  have "ma_cellnodeorder (assign_cells nsub P zs (i + 1) s1) ! (i + k) = zc_index ((z # zs) ! k)
       \<and> ma_cellnodeids (assign_cells nsub P zs (i + 1) s1) ! zc_index ((z # zs) ! k)
           = min (ma_itask s + (ma_count s + int k) div nsub) (P - 1)"
  proof (cases k)
    case 0
    have "ma_cellnodeorder (assign_cells nsub P zs (i + 1) s1) ! i = ma_cellnodeorder s1 ! i"
      by (rule assign_cells_order_before) simp
    moreover have "ma_cellnodeorder s1 ! i = zc_index z"
      using p(8) by (simp add: s1_def)
    moreover have "ma_cellnodeids (assign_cells nsub P zs (i + 1) s1) ! zc_index z
                   = ma_cellnodeids s1 ! zc_index z"
      using znew by (rule assign_cells_ids_other)
    moreover have "ma_cellnodeids s1 ! zc_index z = itask2"
      using p(7) by (simp add: s1_def)
    ultimately show ?thesis using 0 t2 by simp
  next
    case (Suc k')
    then have k': "k' < length zs" using p(9) by simp
    from Cons.IH[OF p(1) c1 i1 d1 r1 l1 k']
    have ih: "ma_cellnodeorder (assign_cells nsub P zs (i + 1) s1) ! (i + 1 + k') = zc_index (zs ! k')"
             "ma_cellnodeids (assign_cells nsub P zs (i + 1) s1) ! zc_index (zs ! k')
                = min (ma_itask s1 + (ma_count s1 + int k') div nsub) (P - 1)"
      by simp_all
    have "min (ma_itask s1 + (ma_count s1 + int k') div nsub) (P - 1)
          = min (ma_itask s + (ma_count s + int k) div nsub) (P - 1)"
    proof (cases "ma_count s = nsub")
      case True
      have "(nsub + int k) div nsub = 1 + int k div nsub" using p(1) by simp
      moreover have "(1 + int k') div nsub \<ge> 0" using p(1) by (simp add: pos_imp_zdiv_nonneg_iff)
      ultimately show ?thesis
        using True Suc p(5) by (auto simp: s1_itask s1_count itask2_def itask1_def count1_def min_def)
    next
      case False
      have "ma_count s + int k = ma_count s + 1 + int k'" using Suc by simp
      moreover have "ma_itask s \<noteq> P" using p(5) by simp
      ultimately show ?thesis
        using False by (simp add: s1_itask s1_count itask2_def itask1_def count1_def add.assoc)
    qed
    with ih Suc show ?thesis by simp
  qed
  then show ?case by (simp only: step)
qed

text \<open>
  For at least one process, the cell of rank \<open>i\<close> in the sorted order belongs to process
  \<open>min (i div nsub) (NProcs - 1)\<close> with \<open>nsub = max \<lfloor>cells / NProcs\<rfloor> 1\<close>.
\<close>

lemma mesh_task_of_rank:
  assumes "1 \<le> NProcs" "i < n * n * n"
  shows "ma_cellnodeorder (MPIInitialDomainDecompositionWithMesh n NProcs) ! i
           = zc_index (sorted_zcurve n ! i)
       \<and> ma_cellnodeids (MPIInitialDomainDecompositionWithMesh n NProcs)
           ! (ma_cellnodeorder (MPIInitialDomainDecompositionWithMesh n NProcs) ! i)
           = min (int i div max (int (n * n * n) div NProcs) 1) (NProcs - 1)"
proof -
  define nsub where "nsub = max \<lfloor>(of_nat (n * n * n) :: real) / of_int NProcs\<rfloor> 1"
  define s0 where "s0 = \<lparr>ma_itask = 0, ma_count = 0, ma_cellnodeids = replicate (n * n * n) 0,
            ma_cellnodeorder = replicate (n * n * n) 0,
            ma_numcellspertask = replicate (nat NProcs) 0\<rparr>"
  have R: "MPIInitialDomainDecompositionWithMesh n NProcs
           = assign_cells nsub NProcs (sorted_zcurve n) 0 s0"
    by (simp add: MPIInitialDomainDecompositionWithMesh_def Let_def nsub_def s0_def)
  have "\<lfloor>(of_nat (n * n * n) :: real) / of_int NProcs\<rfloor> = int (n * n * n) div NProcs"
    using floor_divide_of_int_eq[of "int (n * n * n)" NProcs, where ?'a = real] by simp
  then have nsub: "nsub = max (int (n * n * n) div NProcs) 1" by (simp add: nsub_def)
  have a1: "1 \<le> nsub" by (simp add: nsub)
  have a2: "0 \<le> ma_count s0" "ma_count s0 \<le> nsub" using a1 by (simp_all add: s0_def)
  have a3: "0 \<le> ma_itask s0" "ma_itask s0 \<le> NProcs - 1" using assms(1) by (simp_all add: s0_def)
  have a4: "distinct (map zc_index (sorted_zcurve n))" by (rule sorted_zcurve_facts)
  have a5: "\<forall>z \<in> set (sorted_zcurve n). zc_index z < length (ma_cellnodeids s0)"
    using sorted_zcurve_facts(3)[of _ n] by (simp add: s0_def)
  have a6: "0 + length (sorted_zcurve n) \<le> length (ma_cellnodeorder s0)"
    by (simp add: sorted_zcurve_facts(1) s0_def)
  have a7: "i < length (sorted_zcurve n)" using assms(2) by (simp add: sorted_zcurve_facts(1))
  from assign_cells_rank[OF a1 a2 a3 a4 a5 a6 a7]
  show ?thesis unfolding R by (simp add: s0_def nsub)
qed

text \<open>
  Claim C6, as the code has it. The cells are sorted by their 48-bit Z-order key;
  \<^verbatim>\<open>cellnodeorder\<close> lists the cell indices in this order; and the cell of rank \<open>i\<close> goes
  to process \<open>min (i div nsub) (NProcs - 1)\<close>, where \<open>nsub\<close> is \<open>\<lfloor>cells / NProcs\<rfloor>\<close> and at least
  1: every process but the last gets a run of \<open>nsub\<close> consecutive ranks and the last process
  the rest. With \<open>numcellsperdim = 4\<close> and \<open>NProcs = 8\<close> process \<open>p\<close> gets the eight ranks
  \<open>8p, \<dots>, 8p + 7\<close>.
\<close>

theorem mesh_cells_assigned_in_runs:
  assumes "1 \<le> NProcs" "i < numcellsperdim * numcellsperdim * numcellsperdim"
  shows "sorted_wrt (\<lambda>a b. unat (zc_zcurvevalue a) \<le> unat (zc_zcurvevalue b))
           (sorted_zcurve numcellsperdim)
       \<and> ma_cellnodeorder (MPIInitialDomainDecompositionWithMesh numcellsperdim NProcs) ! i
           = zc_index (sorted_zcurve numcellsperdim ! i)
       \<and> ma_cellnodeids (MPIInitialDomainDecompositionWithMesh numcellsperdim NProcs)
           ! (ma_cellnodeorder (MPIInitialDomainDecompositionWithMesh numcellsperdim NProcs) ! i)
           = min (int i div
                    max (int (numcellsperdim * numcellsperdim * numcellsperdim) div NProcs) 1)
                 (NProcs - 1)
       \<and> (\<forall>p < 8. \<forall>r < 8.
             ma_cellnodeids (MPIInitialDomainDecompositionWithMesh 4 8)
               ! (ma_cellnodeorder (MPIInitialDomainDecompositionWithMesh 4 8) ! (8 * p + r))
             = int p)"
proof -
  have scenario: "ma_cellnodeids (MPIInitialDomainDecompositionWithMesh 4 8)
               ! (ma_cellnodeorder (MPIInitialDomainDecompositionWithMesh 4 8) ! (8 * p + r))
             = int p" if "p < 8" "r < 8" for p r :: nat
  proof -
    have one: "(1::int) \<le> 8" by simp
    have lt: "8 * p + r < 4 * 4 * 4" using that by simp
    have "(8 * int p + int r) div 8 = int p" using that by simp
    moreover have "int p \<le> 7" using that by simp
    ultimately have "min (int (8 * p + r) div max (int (4 * 4 * 4) div 8) 1) (8 - 1) = int p"
      by simp
    with mesh_task_of_rank[OF one lt, THEN conjunct2] show ?thesis by simp
  qed
  from sorted_zcurve_sorted[of numcellsperdim] mesh_task_of_rank[OF assms] scenario
  show ?thesis by blast
qed

text \<open>The theorem for 64 cells on 8 processes: the cell of rank 17 belongs to process 2.\<close>

theorem mesh_cells_assigned_in_runs_witness:
  "(1::int) \<le> 8 \<and> (17::nat) < 4 * 4 * 4
   \<and> ma_cellnodeids (MPIInitialDomainDecompositionWithMesh 4 8)
         ! (ma_cellnodeorder (MPIInitialDomainDecompositionWithMesh 4 8) ! 17) = 2"
proof -
  have one: "(1::int) \<le> 8" by simp
  have lt: "(17::nat) < 4 * 4 * 4" by simp
  from mesh_cells_assigned_in_runs[OF one lt, THEN conjunct2, THEN conjunct2, THEN conjunct1]
  have "ma_cellnodeids (MPIInitialDomainDecompositionWithMesh 4 8)
         ! (ma_cellnodeorder (MPIInitialDomainDecompositionWithMesh 4 8) ! 17) = 2"
    by simp
  with one lt show ?thesis by blast
qed

text \<open>
  Claim C6 as it is stated gives every process \<open>\<lceil>cells / NProcs\<rceil>\<close> cells. With 8 cells on 3
  processes that is 3 cells, so the cell of rank 2 would belong to process 0; the code gives
  it to process 1 (runs of \<open>\<lfloor>8 / 3\<rfloor> = 2\<close> cells), and the last process gets the ranks 4 to 7.
\<close>

theorem mesh_cells_not_ceiling_counterexample:
  "\<lceil>(8::real) / 3\<rceil> = 3
   \<and> ma_cellnodeids (MPIInitialDomainDecompositionWithMesh 2 3)
         ! (ma_cellnodeorder (MPIInitialDomainDecompositionWithMesh 2 3) ! 2) = 1
   \<and> ma_cellnodeids (MPIInitialDomainDecompositionWithMesh 2 3)
         ! (ma_cellnodeorder (MPIInitialDomainDecompositionWithMesh 2 3) ! 7) = 2"
proof -
  have one: "(1::int) \<le> 3" by simp
  have "ma_cellnodeids (MPIInitialDomainDecompositionWithMesh 2 3)
         ! (ma_cellnodeorder (MPIInitialDomainDecompositionWithMesh 2 3) ! 2) = 1"
    using mesh_task_of_rank[OF one, of 2 2, THEN conjunct2] by simp
  moreover have "ma_cellnodeids (MPIInitialDomainDecompositionWithMesh 2 3)
         ! (ma_cellnodeorder (MPIInitialDomainDecompositionWithMesh 2 3) ! 7) = 2"
    using mesh_task_of_rank[OF one, of 7 2, THEN conjunct2] by simp
  moreover have "\<lceil>(8::real) / 3\<rceil> = 3" by simp
  ultimately show ?thesis by blast
qed

text \<open>The key of the cell (1, 0, 1): the first coordinate is the lowest bit of each triple.\<close>

lemma zcurve_key_example: "unat (zcurve_key [1, 0, 1]) = 5"
  by code_simp


section \<open>Rebalancing: the measure, the cut and the abort\<close>


























section \<open>Unpacking the extra-property side channel\<close>

lemma fold_point_updates_other:
  "(\<forall>j < n. g j \<noteq> x) \<Longrightarrow> fold (\<lambda>i P. P(g i := h i)) [0..<n] P x = P x"
proof (induction n)
  case 0
  then show ?case by simp
next
  case (Suc n)
  then have "g n \<noteq> x" "\<forall>j < n. g j \<noteq> x" by simp_all
  with Suc.IH show ?case by simp
qed

lemma fold_point_updates_last:
  "j < n \<Longrightarrow> (\<forall>j'. j < j' \<and> j' < n \<longrightarrow> g j' \<noteq> g j) \<Longrightarrow>
   fold (\<lambda>i P. P(g i := h i)) [0..<n] P (g j) = h j"
proof (induction n)
  case 0
  then show ?case by simp
next
  case (Suc n)
  show ?case
  proof (cases "j = n")
    case True
    then show ?thesis by simp
  next
    case False
    with Suc.prems have jn: "j < n" by simp
    have later: "\<forall>j'. j < j' \<and> j' < n \<longrightarrow> g j' \<noteq> g j" using Suc.prems(2) by simp
    have "g n \<noteq> g j" using Suc.prems(2) jn by simp
    with Suc.IH[OF jn later] show ?thesis by simp
  qed
qed

lemma null_loop:
  "fold (\<lambda>i P. P(int i := Null)) [0..<n] P x = (if 0 \<le> x \<and> x < int n then Null else P x)"
  by (induction n) auto

text \<open>
  Claim C8, as the code has it, for \<^verbatim>\<open>MPISendReceiveHydroInfoBetweenThreads\<close> and for
  \<^verbatim>\<open>MPISendReceiveFOFHydroInfoBetweenThreads\<close>.

  \<^item> When the field lists are not all empty and at least one index was received, the first
    routine releases the handle of every particle of the received chunk and then rebuilds the
    properties of exactly the received indices: a particle whose index was not received ends
    with a released handle (and a handle outside the chunk is not touched), and a received
    index owns the properties unpacked from its slice of the buffer (the last record of an
    index wins).
  \<^item> When no field is configured or no index was received, the first routine returns without
    changing any handle.
  \<^item> The group-exchange routine never releases a handle (its sender releases the handles of
    the records before they are copied): the handle of a record whose index was not received
    stays as it is, with no field configured nothing changes, and otherwise a received index
    owns the properties unpacked from its slice of the buffer.
\<close>

theorem hydro_recv_clears_then_rebuilds:
  "(length internalprop + length chem + length chemproduction > 0 \<and> indicesrecv \<noteq> [] \<longrightarrow>
      (\<forall>i. i \<notin> set indicesrecv \<longrightarrow>
            MPISendReceiveHydroInfoBetweenThreads_recv internalprop chem chemproduction
              indicesrecv proprecvbuff nlocal Part i
            = (if 0 \<le> i \<and> i < nlocal then Null else Part i))
       \<and> (\<forall>j < length indicesrecv.
            (\<forall>j'. j < j' \<and> j' < length indicesrecv \<longrightarrow> indicesrecv ! j' \<noteq> indicesrecv ! j) \<longrightarrow>
            MPISendReceiveHydroInfoBetweenThreads_recv internalprop chem chemproduction
              indicesrecv proprecvbuff nlocal Part (indicesrecv ! j)
            = Owned (unpack_HydroProperties internalprop chem chemproduction proprecvbuff j)))
   \<and> (length internalprop + length chem + length chemproduction = 0 \<or> indicesrecv = [] \<longrightarrow>
        MPISendReceiveHydroInfoBetweenThreads_recv internalprop chem chemproduction
          indicesrecv proprecvbuff nlocal Part = Part)
   \<and> (\<forall>i. i \<notin> set indicesrecv \<longrightarrow>
        MPISendReceiveFOFHydroInfoBetweenThreads_recv internalprop chem chemproduction
          indicesrecv proprecvbuff Part i = Part i)
   \<and> (length internalprop + length chem + length chemproduction = 0 \<longrightarrow>
        MPISendReceiveFOFHydroInfoBetweenThreads_recv internalprop chem chemproduction
          indicesrecv proprecvbuff Part = Part)
   \<and> (length internalprop + length chem + length chemproduction > 0 \<longrightarrow>
        (\<forall>j < length indicesrecv.
            (\<forall>j'. j < j' \<and> j' < length indicesrecv \<longrightarrow> indicesrecv ! j' \<noteq> indicesrecv ! j) \<longrightarrow>
            MPISendReceiveFOFHydroInfoBetweenThreads_recv internalprop chem chemproduction
              indicesrecv proprecvbuff Part (indicesrecv ! j)
            = Owned (unpack_HydroProperties internalprop chem chemproduction proprecvbuff j)))"
proof -
  let ?h = "\<lambda>i. Owned (unpack_HydroProperties internalprop chem chemproduction proprecvbuff i)"
  let ?P1 = "fold (\<lambda>i P. P(int i := Null)) [0..<nat nlocal] Part"
  have a: "fold (\<lambda>i P. P(indicesrecv ! i := ?h i)) [0..<length indicesrecv] Q i = Q i"
    if "i \<notin> set indicesrecv" for i Q
  proof -
    have "\<forall>j < length indicesrecv. indicesrecv ! j \<noteq> i" using that by auto
    then show ?thesis by (rule fold_point_updates_other)
  qed
  have b: "fold (\<lambda>i P. P(indicesrecv ! i := ?h i)) [0..<length indicesrecv] Q (indicesrecv ! j)
           = ?h j"
    if "j < length indicesrecv"
       "\<forall>j'. j < j' \<and> j' < length indicesrecv \<longrightarrow> indicesrecv ! j' \<noteq> indicesrecv ! j" for j Q
    using that by (rule fold_point_updates_last)
  have clears: "length internalprop + length chem + length chemproduction > 0
      \<and> indicesrecv \<noteq> [] \<longrightarrow>
      (\<forall>i. i \<notin> set indicesrecv \<longrightarrow>
            MPISendReceiveHydroInfoBetweenThreads_recv internalprop chem chemproduction
              indicesrecv proprecvbuff nlocal Part i
            = (if 0 \<le> i \<and> i < nlocal then Null else Part i))
       \<and> (\<forall>j < length indicesrecv.
            (\<forall>j'. j < j' \<and> j' < length indicesrecv \<longrightarrow> indicesrecv ! j' \<noteq> indicesrecv ! j) \<longrightarrow>
            MPISendReceiveHydroInfoBetweenThreads_recv internalprop chem chemproduction
              indicesrecv proprecvbuff nlocal Part (indicesrecv ! j)
            = ?h j)"
  proof
    assume h: "length internalprop + length chem + length chemproduction > 0 \<and> indicesrecv \<noteq> []"
    have r: "MPISendReceiveHydroInfoBetweenThreads_recv internalprop chem chemproduction
              indicesrecv proprecvbuff nlocal Part
           = fold (\<lambda>i P. P(indicesrecv ! i := ?h i)) [0..<length indicesrecv] ?P1"
      using h by (auto simp add: MPISendReceiveHydroInfoBetweenThreads_recv_def Let_def)
    have n: "?P1 i = (if 0 \<le> i \<and> i < nlocal then Null else Part i)" for i
      by (simp add: null_loop)
    show "(\<forall>i. i \<notin> set indicesrecv \<longrightarrow>
            MPISendReceiveHydroInfoBetweenThreads_recv internalprop chem chemproduction
              indicesrecv proprecvbuff nlocal Part i
            = (if 0 \<le> i \<and> i < nlocal then Null else Part i))
       \<and> (\<forall>j < length indicesrecv.
            (\<forall>j'. j < j' \<and> j' < length indicesrecv \<longrightarrow> indicesrecv ! j' \<noteq> indicesrecv ! j) \<longrightarrow>
            MPISendReceiveHydroInfoBetweenThreads_recv internalprop chem chemproduction
              indicesrecv proprecvbuff nlocal Part (indicesrecv ! j)
            = ?h j)"
      unfolding r using a[of _ ?P1] b[of _ ?P1] n by auto
  qed
  have returns: "length internalprop + length chem + length chemproduction = 0
      \<or> indicesrecv = [] \<longrightarrow>
        MPISendReceiveHydroInfoBetweenThreads_recv internalprop chem chemproduction
          indicesrecv proprecvbuff nlocal Part = Part"
    by (auto simp add: MPISendReceiveHydroInfoBetweenThreads_recv_def Let_def)
  have fof_other: "\<forall>i. i \<notin> set indicesrecv \<longrightarrow>
        MPISendReceiveFOFHydroInfoBetweenThreads_recv internalprop chem chemproduction
          indicesrecv proprecvbuff Part i = Part i"
    using a[of _ Part]
    by (simp add: MPISendReceiveFOFHydroInfoBetweenThreads_recv_def Let_def)
  have fof_none: "length internalprop + length chem + length chemproduction = 0 \<longrightarrow>
        MPISendReceiveFOFHydroInfoBetweenThreads_recv internalprop chem chemproduction
          indicesrecv proprecvbuff Part = Part"
    by (simp add: MPISendReceiveFOFHydroInfoBetweenThreads_recv_def Let_def)
  have fof_recv: "length internalprop + length chem + length chemproduction > 0 \<longrightarrow>
        (\<forall>j < length indicesrecv.
            (\<forall>j'. j < j' \<and> j' < length indicesrecv \<longrightarrow> indicesrecv ! j' \<noteq> indicesrecv ! j) \<longrightarrow>
            MPISendReceiveFOFHydroInfoBetweenThreads_recv internalprop chem chemproduction
              indicesrecv proprecvbuff Part (indicesrecv ! j)
            = ?h j)"
  proof
    assume h: "length internalprop + length chem + length chemproduction > 0"
    have r: "MPISendReceiveFOFHydroInfoBetweenThreads_recv internalprop chem chemproduction
              indicesrecv proprecvbuff Part
           = fold (\<lambda>i P. P(indicesrecv ! i := ?h i)) [0..<length indicesrecv] Part"
      using h by (auto simp add: MPISendReceiveFOFHydroInfoBetweenThreads_recv_def Let_def)
    show "\<forall>j < length indicesrecv.
            (\<forall>j'. j < j' \<and> j' < length indicesrecv \<longrightarrow> indicesrecv ! j' \<noteq> indicesrecv ! j) \<longrightarrow>
            MPISendReceiveFOFHydroInfoBetweenThreads_recv internalprop chem chemproduction
              indicesrecv proprecvbuff Part (indicesrecv ! j)
            = ?h j"
      unfolding r using b[of _ Part] by blast
  qed
  from clears returns fof_other fof_none fof_recv show ?thesis by blast
qed

text \<open>
  The theorem on a chunk of three particles: with particle 1 received the first routine
  releases the handles of the particles 0 and 2 and rebuilds particle 1; with nothing
  received, or with no field configured, it leaves the chunk as it was; the group-exchange
  routine rebuilds record 1 of a chunk of released handles and leaves record 0 released.
\<close>

theorem hydro_recv_clears_then_rebuilds_witness:
  "length [''Z''] + length ([] :: string list) + length ([] :: string list) > 0
   \<and> [1 :: int] \<noteq> []
   \<and> MPISendReceiveHydroInfoBetweenThreads_recv [''Z''] [] [] [1] [1 / 2] 3 stale_chunk 0 = Null
   \<and> MPISendReceiveHydroInfoBetweenThreads_recv [''Z''] [] [] [1] [1 / 2] 3 stale_chunk 2 = Null
   \<and> MPISendReceiveHydroInfoBetweenThreads_recv [''Z''] [] [] [1] [1 / 2] 3 stale_chunk 1
       = Owned \<lparr>InternalProperties = [''Z'' \<mapsto> 1 / 2], Chemistry = Map.empty,
                ChemistryProduction = Map.empty\<rparr>
   \<and> MPISendReceiveHydroInfoBetweenThreads_recv [''Z''] [] [] [] [] 3 stale_chunk = stale_chunk
   \<and> MPISendReceiveHydroInfoBetweenThreads_recv [] [] [] [1] [] 3 stale_chunk = stale_chunk
   \<and> MPISendReceiveFOFHydroInfoBetweenThreads_recv [''Z''] [] [] [1] [1 / 2] released_chunk 0
       = Null
   \<and> MPISendReceiveFOFHydroInfoBetweenThreads_recv [] [] [] [1] [] released_chunk
       = released_chunk
   \<and> MPISendReceiveFOFHydroInfoBetweenThreads_recv [''Z''] [] [] [1] [1 / 2] released_chunk 1
       = Owned \<lparr>InternalProperties = [''Z'' \<mapsto> 1 / 2], Chemistry = Map.empty,
                ChemistryProduction = Map.empty\<rparr>"
proof -
  have h1: "length [''Z''] + length ([] :: string list) + length ([] :: string list) > 0"
    by simp
  have h2: "[1 :: int] \<noteq> []" by simp
  have h0: "length ([] :: string list) + length ([] :: string list) + length ([] :: string list)
            = 0" by simp
  have l: "(0::nat) < length [1 :: int]" by simp
  have nolater: "\<forall>j'. (0::nat) < j' \<and> j' < length [1 :: int] \<longrightarrow> [1 :: int] ! j' \<noteq> [1] ! 0"
    by auto
  note t = hydro_recv_clears_then_rebuilds[of "[''Z'']" "[]" "[]" "[1]" "[1 / 2]" 3 stale_chunk]
  note tf = hydro_recv_clears_then_rebuilds[of "[''Z'']" "[]" "[]" "[1]" "[1 / 2]" 3 released_chunk]
  note te = hydro_recv_clears_then_rebuilds[of "[''Z'']" "[]" "[]" "[]" "[]" 3 stale_chunk]
  note tn = hydro_recv_clears_then_rebuilds[of "[]" "[]" "[]" "[1]" "[]" 3 stale_chunk]
  note tfn = hydro_recv_clears_then_rebuilds[of "[]" "[]" "[]" "[1]" "[]" 3 released_chunk]
  from t h1 h2 have others: "\<And>i. i \<notin> set [1 :: int] \<Longrightarrow>
      MPISendReceiveHydroInfoBetweenThreads_recv [''Z''] [] [] [1] [1 / 2] 3 stale_chunk i
        = (if 0 \<le> i \<and> i < 3 then Null else stale_chunk i)"
    by blast
  from t h1 h2 have received: "\<And>j. j < length [1 :: int] \<Longrightarrow>
      (\<forall>j'. j < j' \<and> j' < length [1 :: int] \<longrightarrow> [1 :: int] ! j' \<noteq> [1] ! j) \<Longrightarrow>
      MPISendReceiveHydroInfoBetweenThreads_recv [''Z''] [] [] [1] [1 / 2] 3 stale_chunk ([1] ! j)
        = Owned (unpack_HydroProperties [''Z''] [] [] [1 / 2] j)"
    by blast
  from tf have fof_others: "\<And>i. i \<notin> set [1 :: int] \<Longrightarrow>
      MPISendReceiveFOFHydroInfoBetweenThreads_recv [''Z''] [] [] [1] [1 / 2] released_chunk i
        = released_chunk i"
    by blast
  from tf h1 have fof_received: "\<And>j. j < length [1 :: int] \<Longrightarrow>
      (\<forall>j'. j < j' \<and> j' < length [1 :: int] \<longrightarrow> [1 :: int] ! j' \<noteq> [1] ! j) \<Longrightarrow>
      MPISendReceiveFOFHydroInfoBetweenThreads_recv [''Z''] [] [] [1] [1 / 2] released_chunk ([1] ! j)
        = Owned (unpack_HydroProperties [''Z''] [] [] [1 / 2] j)"
    by blast
  have r0: "MPISendReceiveHydroInfoBetweenThreads_recv [''Z''] [] [] [1] [1 / 2] 3 stale_chunk 0 = Null"
    using others[of 0] by simp
  have r2: "MPISendReceiveHydroInfoBetweenThreads_recv [''Z''] [] [] [1] [1 / 2] 3 stale_chunk 2 = Null"
    using others[of 2] by simp
  have r1: "MPISendReceiveHydroInfoBetweenThreads_recv [''Z''] [] [] [1] [1 / 2] 3 stale_chunk 1
       = Owned \<lparr>InternalProperties = [''Z'' \<mapsto> 1 / 2], Chemistry = Map.empty,
                ChemistryProduction = Map.empty\<rparr>"
    using received[OF l nolater] by (simp add: unpack_HydroProperties_def)
  have e: "MPISendReceiveHydroInfoBetweenThreads_recv [''Z''] [] [] [] [] 3 stale_chunk
           = stale_chunk"
    using te by blast
  have n: "MPISendReceiveHydroInfoBetweenThreads_recv [] [] [] [1] [] 3 stale_chunk = stale_chunk"
    using tn h0 by blast
  have f0: "MPISendReceiveFOFHydroInfoBetweenThreads_recv [''Z''] [] [] [1] [1 / 2] released_chunk 0
       = Null"
    using fof_others[of 0] by (simp add: released_chunk_def)
  have fn: "MPISendReceiveFOFHydroInfoBetweenThreads_recv [] [] [] [1] [] released_chunk
       = released_chunk"
    using tfn h0 by blast
  have f1: "MPISendReceiveFOFHydroInfoBetweenThreads_recv [''Z''] [] [] [1] [1 / 2] released_chunk 1
       = Owned \<lparr>InternalProperties = [''Z'' \<mapsto> 1 / 2], Chemistry = Map.empty,
                ChemistryProduction = Map.empty\<rparr>"
    using fof_received[OF l nolater] by (simp add: unpack_HydroProperties_def)
  from h1 h2 r0 r2 r1 e n f0 fn f1 show ?thesis by blast
qed

text \<open>
  Claim C8 as it is stated says that the handles are cleared however many indices were
  received, zero included. The routine returns right after the exchange when no index was
  received, before the loop that releases the handles: the stale handles of the three
  particles of the chunk stay.
\<close>

theorem hydro_recv_nothing_received_counterexample:
  "MPISendReceiveHydroInfoBetweenThreads_recv [''Z''] [] [] [] [] 3 stale_chunk 0 = Stale
   \<and> MPISendReceiveHydroInfoBetweenThreads_recv [''Z''] [] [] [] [] 3 stale_chunk 1 = Stale
   \<and> MPISendReceiveHydroInfoBetweenThreads_recv [''Z''] [] [] [] [] 3 stale_chunk 2 = Stale"
  by (simp add: MPISendReceiveHydroInfoBetweenThreads_recv_def stale_chunk_def)

section \<open>Tags of the rounds of one pair\<close>

text \<open>
  In \<^verbatim>\<open>MPIUpdateExportList\<close> the tag grows with the round, so no two rounds of a pair
  share a tag; in \<^verbatim>\<open>MPIBuildParticleExportList\<close> every round uses the same two tags.
\<close>

lemma tags_of_update_rounds:
  "map fst (map (\<lambda>(ichunk, c). (T + int ichunk, c)) (enumerate k xs))
     = map (\<lambda>i. T + int i) [k..<k + length xs]"
  by (induction xs arbitrary: k) (simp_all add: upt_conv_Cons del: upt_Suc)

lemma MPIUpdateExportList_tags_distinct:
  "MPIUpdateExportList_rounds TAG_FOF_A nsend nrecv maxchunksize = Some rounds
   \<Longrightarrow> distinct (map fst rounds)"
proof -
  assume "MPIUpdateExportList_rounds TAG_FOF_A nsend nrecv maxchunksize = Some rounds"
  then obtain sched where
    "rounds = map (\<lambda>(ichunk, c). (TAG_FOF_A + int ichunk, c)) (enumerate 0 sched)"
    unfolding MPIUpdateExportList_rounds_def by auto
  then have "map fst rounds = map (\<lambda>i. TAG_FOF_A + int i) [0..<0 + length sched]"
    by (simp only: tags_of_update_rounds)
  then show ?thesis by (simp add: distinct_map inj_on_def)
qed

lemma MPIBuildParticleExportList_tags_constant:
  "MPIBuildParticleExportList_rounds TAG_FOF_A TAG_FOF_B nsend nrecv maxchunksize = Some rounds
   \<Longrightarrow> r \<in> set rounds \<Longrightarrow> fst r = TAG_FOF_A \<and> fst (snd r) = TAG_FOF_B"
  by (auto simp: MPIBuildParticleExportList_rounds_def)

text \<open>The schedule of 4 records to send and none to receive in chunks of 2: two rounds.\<close>

lemma chunk_schedule_4_0_2:
  "chunk_schedule 4 0 2
   = Some [\<lparr>cursendchunksize = 2, currecvchunksize = 0, sendoffset = 0, recvoffset = 0\<rparr>,
           \<lparr>cursendchunksize = 2, currecvchunksize = 0, sendoffset = 2, recvoffset = 0\<rparr>]"
proof -
  have s: "int_of_double (double_ceil (double_div (double_of_int 4) (double_of_int 2))) = Some 2"
    using int_of_double_ceil_quotient[of 4 2] by simp
  have r: "int_of_double (double_ceil (double_div (double_of_int 0) (double_of_int 2))) = Some 0"
    using int_of_double_ceil_quotient[of 0 2] by simp
  have n: "int_of_Int_t 2 = 2" "int_of_Int_t 0 = 0" by (simp_all add: int_of_Int_t_def)
  show ?thesis
    by (simp add: chunk_schedule_def MPIInitialzeCommChunks_def MPIUpdateCommChunks_def Let_def
        s r n numeral_2_eq_2)
qed

text \<open>
  Claim C9 says that in every chunked pairwise exchange the tag of a round differs from the
  tag of every other round of the same pair, in particular in the chunk loops of
  \<^verbatim>\<open>MPIBuildParticleExportList\<close> and \<^verbatim>\<open>MPIUpdateExportList\<close>. With 4 records to
  send in chunks of 2 there are two rounds: \<^verbatim>\<open>MPIBuildParticleExportList\<close> sends both
  with the tags \<^verbatim>\<open>TAG_FOF_A\<close> and \<^verbatim>\<open>TAG_FOF_B\<close>, while
  \<^verbatim>\<open>MPIUpdateExportList\<close> uses \<^verbatim>\<open>TAG_FOF_A\<close> and then \<^verbatim>\<open>TAG_FOF_A+1\<close>.
\<close>

theorem MPIBuildParticleExportList_tags_repeat:
  "map_option (map (\<lambda>(a, b, c). (a, b)))
     (MPIBuildParticleExportList_rounds TAG_FOF_A TAG_FOF_B 4 0 2)
     = Some [(TAG_FOF_A, TAG_FOF_B), (TAG_FOF_A, TAG_FOF_B)]
   \<and> map_option (map fst) (MPIUpdateExportList_rounds TAG_FOF_A 4 0 2)
     = Some [TAG_FOF_A, TAG_FOF_A + 1]"
  by (simp add: MPIBuildParticleExportList_rounds_def MPIUpdateExportList_rounds_def
      chunk_schedule_4_0_2)

section \<open>The two comparators of the group records\<close>

text \<open>
  Within one group the two comparators agree; across groups \<^verbatim>\<open>fof_id_cmp\<close> puts the
  larger group id first and \<^verbatim>\<open>fof_id_cmp_vec\<close> the smaller one.
\<close>

lemma fof_id_cmp_vec_agrees_within_group:
  "fi_iGroup a = fi_iGroup b \<Longrightarrow> (fof_id_cmp a b < 0) = fof_id_cmp_vec a b"
  by (simp add: fof_id_cmp_def fof_id_cmp_vec_def)

lemma fof_id_cmp_vec_opposite_across_groups:
  "fi_iGroup a \<noteq> fi_iGroup b \<Longrightarrow> (fof_id_cmp a b < 0) = fof_id_cmp_vec b a"
  by (auto simp add: fof_id_cmp_def fof_id_cmp_vec_def)

text \<open>
  Claim C10 says that \<^verbatim>\<open>fof_id_cmp_vec\<close> orders the records as the legacy
  \<^verbatim>\<open>fof_id_cmp\<close> did, so that records with \<^verbatim>\<open>iGroup == 0\<close> come last and the
  run-counting loop of \<^verbatim>\<open>MPIBaryonCompileGroups\<close> sees every grouped run before it
  stops. The code does otherwise: for a record of group 3 and an ungrouped record the legacy
  comparator answers "first" and the new one answers "not before"; with one ungrouped record
  and a group of two, sorting with \<^verbatim>\<open>fof_id_cmp_vec\<close> puts the ungrouped record first,
  the loop stops at index 0 and counts no group, where the legacy order counts one.
\<close>

theorem fof_id_cmp_vec_reverses_group_order:
  "fof_id_cmp
     \<lparr>fi_p = \<lparr>GetID = 1, GetPID = 11, GetType = 1\<rparr>, fi_Index = 1, fi_Task = 0, fi_iGroup = 3\<rparr>
     \<lparr>fi_p = \<lparr>GetID = 0, GetPID = 10, GetType = 1\<rparr>, fi_Index = 0, fi_Task = 0, fi_iGroup = 0\<rparr> < 0
   \<and> \<not> fof_id_cmp_vec
     \<lparr>fi_p = \<lparr>GetID = 1, GetPID = 11, GetType = 1\<rparr>, fi_Index = 1, fi_Task = 0, fi_iGroup = 3\<rparr>
     \<lparr>fi_p = \<lparr>GetID = 0, GetPID = 10, GetType = 1\<rparr>, fi_Index = 0, fi_Task = 0, fi_iGroup = 0\<rparr>
   \<and> MPIBaryonCompileGroups_filter
     [\<lparr>fi_p = \<lparr>GetID = 0, GetPID = 10, GetType = 1\<rparr>, fi_Index = 0, fi_Task = 0, fi_iGroup = 0\<rparr>,
      \<lparr>fi_p = \<lparr>GetID = 1, GetPID = 11, GetType = 1\<rparr>, fi_Index = 1, fi_Task = 0, fi_iGroup = 3\<rparr>,
      \<lparr>fi_p = \<lparr>GetID = 2, GetPID = 12, GetType = 1\<rparr>, fi_Index = 2, fi_Task = 0, fi_iGroup = 3\<rparr>] 2
     = ([0, 3, 3], 0)
   \<and> MPIBaryonCompileGroups_filter_legacy
     [\<lparr>fi_p = \<lparr>GetID = 0, GetPID = 10, GetType = 1\<rparr>, fi_Index = 0, fi_Task = 0, fi_iGroup = 0\<rparr>,
      \<lparr>fi_p = \<lparr>GetID = 1, GetPID = 11, GetType = 1\<rparr>, fi_Index = 1, fi_Task = 0, fi_iGroup = 3\<rparr>,
      \<lparr>fi_p = \<lparr>GetID = 2, GetPID = 12, GetType = 1\<rparr>, fi_Index = 2, fi_Task = 0, fi_iGroup = 3\<rparr>] 2
     = ([3, 3, 0], 1)"
  by (simp add: fof_id_cmp_def fof_id_cmp_vec_def MPIBaryonCompileGroups_filter_def
      MPIBaryonCompileGroups_filter_legacy_def std_sort_def qsort_def close_run_def
      count_group_runs.simps)


end
